theory Spec2Isabelle
  imports Main "HOL-Library.Sublist" "HOL-Library.Multiset"
begin

section \<open>The environment: git backend, host shell, object identities\<close>

text \<open>
  The extension's classes reach their collaborators through the global \<open>Container\<close> and the
  host's API. The model threads one record through every method: what the collaborators hold
  (\<open>repositories\<close>, \<open>workspaceState\<close>, the configuration, the live listeners and tree views),
  an allocation counter that gives every constructed object its identity, and the trace of
  the calls made on collaborators, in the order the code makes them.

  An \<open>await\<close>ed call is modelled as a call that returns: every method runs to its end before
  the next one starts. The one await at which another call is let in is that of
  \<open>setAutoRefresh\<close>, which is also given in two parts (\<open>setAutoRefresh_until_await\<close>,
  \<open>setAutoRefresh_after_await\<close>).
\<close>

record repository =
  path :: string
  normalizedPath :: string
  index :: int
  closed :: bool

text \<open>
  Modelled from the spec: the classes of the children a \<open>RepositoriesNode\<close> holds
  (\<open>MessageNode\<close>, \<open>RepositoryNode\<close>) are not among the sources. A message node carries its
  message, a repository node its repository; what their own \<open>refresh\<close> and \<open>dispose\<close> do
  is recorded as an effect (\<open>NodeRefresh\<close>, \<open>NodeDispose\<close>). The natural number is the
  identity of the object (JavaScript compares objects by reference): two nodes are the same
  instance iff they carry the same number.
\<close>

datatype explorer_node =
    MessageNode nat string
  | RepositoryNode nat repository

fun node_id :: "explorer_node \<Rightarrow> nat" where
  "node_id (MessageNode i m) = i"
| "node_id (RepositoryNode i r) = i"

fun is_RepositoryNode :: "explorer_node \<Rightarrow> bool" where
  "is_RepositoryNode (MessageNode i m) = False"
| "is_RepositoryNode (RepositoryNode i r) = True"

fun repo :: "explorer_node \<Rightarrow> repository option" where
  "repo (MessageNode i m) = None"
| "repo (RepositoryNode i r) = Some r"

datatype js_error = TypeError

datatype RefreshReason = Command | ConfigurationChanged | RepoChanged | AutoRefreshChanged

datatype CommandContext = GitExplorer | GitExplorerAutoRefresh

datatype context_value = CtxUndefined | CtxBool bool | CtxString string

datatype effect =
    NodeRefresh nat
  | NodeDispose nat
  | Dispose nat
  | LogRefresh RefreshReason
  | LogRefreshNode nat
  | LogRepositoriesChanged
  | SetCommandContext CommandContext context_value
  | WorkspaceStateUpdate bool
  | FireDidChangeAutoRefresh
  | FireDidChangeTreeData nat "nat option"
  | OnDidChangeRepositories nat
  | CreateTreeView nat string

record config =
  enabled :: bool
  location :: string
  autoRefresh :: bool

record world =
  repositories :: "repository list"
  workspaceState :: "bool option"
  gitExplorer :: config
  subscriptions :: "nat list"
  listeners :: "nat list"
  treeViews :: "(nat \<times> string) list"
  next_id :: nat
  trace :: "effect list"

definition emit :: "effect \<Rightarrow> world \<Rightarrow> world" where
  "emit e w = w\<lparr>trace := trace w @ [e]\<rparr>"

definition alloc :: "world \<Rightarrow> nat \<times> world" where
  "alloc w = (next_id w, w\<lparr>next_id := Suc (next_id w)\<rparr>)"

section \<open>RepositoriesNode\<close>

record repositories_node =
  rn_id :: nat
  children :: "explorer_node list option"

definition new_MessageNode :: "string \<Rightarrow> world \<Rightarrow> explorer_node \<times> world" where
  "new_MessageNode m w = (case alloc w of (i, w') \<Rightarrow> (MessageNode i m, w'))"

definition new_RepositoryNode :: "repository \<Rightarrow> world \<Rightarrow> explorer_node \<times> world" where
  "new_RepositoryNode r w = (case alloc w of (i, w') \<Rightarrow> (RepositoryNode i r, w'))"

text \<open>
  \<open>repositories.sort((a, b) => a.index - b.index)\<close>: ascending by \<open>index\<close>; repositories of
  equal index keep their order (the sort of the host's engine is stable).
\<close>

definition sort_repositories :: "repository list \<Rightarrow> repository list" where
  "sort_repositories rs = sort_key index rs"

text \<open>The loop of \<open>getChildren\<close>: closed repositories are skipped, the others get a new node.\<close>

fun getChildren_loop ::
  "repository list \<Rightarrow> explorer_node list \<Rightarrow> world \<Rightarrow> explorer_node list \<times> world" where
  "getChildren_loop [] cs w = (cs, w)"
| "getChildren_loop (r # rs) cs w =
     (if closed r then getChildren_loop rs cs w
      else (case new_RepositoryNode r w of (n, w') \<Rightarrow> getChildren_loop rs (cs @ [n]) w'))"

definition RepositoriesNode_getChildren ::
  "repositories_node \<Rightarrow> world \<Rightarrow> explorer_node list \<times> repositories_node \<times> world" where
  "RepositoriesNode_getChildren this w =
     (case children this of
        None \<Rightarrow>
          (if length (repositories w) = 0
           then (case new_MessageNode ''No repositories found'' w of (m, w') \<Rightarrow> ([m], this, w'))
           else (case getChildren_loop (sort_repositories (repositories w)) [] w of
                   (cs, w') \<Rightarrow> (cs, this\<lparr>children := Some cs\<rparr>, w')))
      | Some cs \<Rightarrow> (cs, this, w))"

text \<open>
  \<open>(this.children as RepositoryNode[]).find(c => c.repo.normalizedPath === normalizedPath)\<close>.
  The cast is unchecked: a cached \<open>MessageNode\<close> has no \<open>repo\<close>, and reading
  \<open>normalizedPath\<close> of \<open>undefined\<close> throws. \<open>find\<close> stops at the first match.
\<close>

fun find_child :: "explorer_node list \<Rightarrow> string \<Rightarrow> js_error + explorer_node option" where
  "find_child [] p = Inr None"
| "find_child (c # cs) p =
     (case repo c of
        None \<Rightarrow> Inl TypeError
      | Some r \<Rightarrow> if normalizedPath r = p then Inr (Some c) else find_child cs p)"

text \<open>The first loop of \<open>refresh\<close>; an exception leaves the effects made so far in place.\<close>

fun refresh_loop ::
  "repository list \<Rightarrow> explorer_node list \<Rightarrow> explorer_node list \<Rightarrow> world \<Rightarrow>
     (js_error \<times> world) + (explorer_node list \<times> world)" where
  "refresh_loop [] old cs w = Inr (cs, w)"
| "refresh_loop (r # rs) old cs w =
     (case find_child old (normalizedPath r) of
        Inl e \<Rightarrow> Inl (e, w)
      | Inr (Some child) \<Rightarrow>
          refresh_loop rs old (cs @ [child]) (emit (NodeRefresh (node_id child)) w)
      | Inr None \<Rightarrow>
          (case new_RepositoryNode r w of (n, w') \<Rightarrow> refresh_loop rs old (cs @ [n]) w'))"

text \<open>\<open>children.includes(child)\<close> compares object references.\<close>

definition includes_child :: "explorer_node list \<Rightarrow> explorer_node \<Rightarrow> bool" where
  "includes_child cs c = (node_id c \<in> set (map node_id cs))"

fun dispose_loop :: "explorer_node list \<Rightarrow> explorer_node list \<Rightarrow> world \<Rightarrow> world" where
  "dispose_loop [] cs w = w"
| "dispose_loop (child # rest) cs w =
     (if includes_child cs child then dispose_loop rest cs w
      else dispose_loop rest cs (emit (NodeDispose (node_id child)) w))"

definition RepositoriesNode_refresh ::
  "repositories_node \<Rightarrow> world \<Rightarrow> (js_error \<times> world) + (repositories_node \<times> world)" where
  "RepositoriesNode_refresh this w =
     (case children this of
        None \<Rightarrow> Inr (this, w)
      | Some old \<Rightarrow>
          (if length (repositories w) = 0 \<and> length old = 0 then Inr (this, w)
           else if length (repositories w) = 0
           then (case new_MessageNode ''No repositories found'' w of
                   (m, w') \<Rightarrow> Inr (this\<lparr>children := Some [m]\<rparr>, w'))
           else (case refresh_loop (sort_repositories (repositories w)) old [] w of
                   Inl e \<Rightarrow> Inl e
                 | Inr (cs, w') \<Rightarrow> Inr (this\<lparr>children := Some cs\<rparr>, dispose_loop old cs w'))))"

text \<open>
  What \<open>refresh\<close> computes in its first loop, written without the effects, to state the lemmas
  about it: the normalized path a child stands for, the cached child \<open>find\<close> returns for a
  repository, and the list the first loop builds when it starts with \<open>n\<close> as the next free
  identity.
\<close>

fun node_path :: "explorer_node \<Rightarrow> string option" where
  "node_path (MessageNode i m) = None"
| "node_path (RepositoryNode i r) = Some (normalizedPath r)"

definition lookup_child :: "explorer_node list \<Rightarrow> repository \<Rightarrow> explorer_node option" where
  "lookup_child old r = List.find (\<lambda>c. node_path c = Some (normalizedPath r)) old"

fun reconcile :: "repository list \<Rightarrow> explorer_node list \<Rightarrow> nat \<Rightarrow> explorer_node list" where
  "reconcile [] old n = []"
| "reconcile (r # rs) old n =
     (case lookup_child old r of
        Some c \<Rightarrow> c # reconcile rs old n
      | None \<Rightarrow> RepositoryNode n r # reconcile rs old (Suc n))"

section \<open>GitExplorer\<close>

text \<open>
  The fields of the class. \<open>disposable\<close> is \<open>Disposable.from(tree, visibility listener)\<close>:
  the handles it disposes, in order. \<open>onDidChangeTreeData\<close> is the identity of the current
  emitter object.
\<close>

record git_explorer =
  disposable :: "nat list option"
  root :: "repositories_node option"
  tree :: "nat option"
  autoRefreshDisposable :: "nat option"
  onDidChangeTreeData :: nat

text \<open>
  Disposing a handle: a listener of the git backend stops listening, a tree view goes away.
\<close>

definition dispose :: "nat \<Rightarrow> world \<Rightarrow> world" where
  "dispose h w =
     emit (Dispose h)
       (w\<lparr>listeners := removeAll h (listeners w),
          treeViews := filter (\<lambda>v. fst v \<noteq> h) (treeViews w)\<rparr>)"

fun dispose_all :: "nat list \<Rightarrow> world \<Rightarrow> world" where
  "dispose_all [] w = w"
| "dispose_all (h # hs) w = dispose_all hs (dispose h w)"

definition setCommandContext :: "CommandContext \<Rightarrow> context_value \<Rightarrow> world \<Rightarrow> world" where
  "setCommandContext k v w = emit (SetCommandContext k v) w"

text \<open>\<open>workspaceState.get<boolean>(WorkspaceState.GitExplorerAutoRefresh, dflt)\<close> and \<open>workspaceState.update\<close>.\<close>

definition workspaceState_get :: "world \<Rightarrow> bool \<Rightarrow> bool" where
  "workspaceState_get w dflt = (case workspaceState w of None \<Rightarrow> dflt | Some b \<Rightarrow> b)"

definition update_workspaceState :: "bool \<Rightarrow> world \<Rightarrow> world" where
  "update_workspaceState b w = emit (WorkspaceStateUpdate b) (w\<lparr>workspaceState := Some b\<rparr>)"

text \<open>\<open>Container.git.onDidChangeRepositories(listener)\<close>: a new live listener, and its handle.\<close>

definition onDidChangeRepositories :: "world \<Rightarrow> nat \<times> world" where
  "onDidChangeRepositories w =
     (case alloc w of
        (d, w') \<Rightarrow> (d, emit (OnDidChangeRepositories d) (w'\<lparr>listeners := listeners w' @ [d]\<rparr>)))"

text \<open>
  \<open>window.createTreeView(id, ...)\<close> followed by \<open>tree.onDidChangeVisibility(...)\<close>: the handle
  of the view and the handle of the listener.
\<close>

definition createTreeView :: "string \<Rightarrow> world \<Rightarrow> nat \<times> world" where
  "createTreeView v w =
     (case alloc w of
        (t, w') \<Rightarrow> (t, emit (CreateTreeView t v) (w'\<lparr>treeViews := treeViews w' @ [(t, v)]\<rparr>)))"

text \<open>
  \<open>new RepositoriesNode(explorer)\<close>. The constructor also listens to two events of the
  explorer; both handlers leave every field alone (one is empty, one writes a log line).
\<close>

definition new_RepositoriesNode :: "world \<Rightarrow> repositories_node \<times> world" where
  "new_RepositoriesNode w = (case alloc w of (i, w') \<Rightarrow> (\<lparr>rn_id = i, children = None\<rparr>, w'))"

definition setRoot :: "git_explorer \<Rightarrow> world \<Rightarrow> git_explorer \<times> world" where
  "setRoot this w =
     (case root this of
        None \<Rightarrow> (case new_RepositoriesNode w of (r, w') \<Rightarrow> (this\<lparr>root := Some r\<rparr>, w'))
      | Some r \<Rightarrow> (this, w))"

text \<open>
  \<open>refresh(reason?)\<close>. When the root's \<open>refresh\<close> throws, the \<open>await\<close> rethrows and the event
  is not fired.
\<close>

definition GitExplorer_refresh ::
  "RefreshReason option \<Rightarrow> git_explorer \<Rightarrow> world \<Rightarrow>
     (js_error \<times> world) + (git_explorer \<times> world)" where
  "GitExplorer_refresh reason this w =
     (let reason' = (case reason of None \<Rightarrow> Command | Some r \<Rightarrow> r);
          w1 = emit (LogRefresh reason') w
      in case root this of
           None \<Rightarrow> Inr (this, emit (FireDidChangeTreeData (onDidChangeTreeData this) None) w1)
         | Some r \<Rightarrow>
             (case RepositoriesNode_refresh r w1 of
                Inl e \<Rightarrow> Inl e
              | Inr (r', w2) \<Rightarrow>
                  Inr (this\<lparr>root := Some r'\<rparr>,
                       emit (FireDidChangeTreeData (onDidChangeTreeData this) None) w2)))"

text \<open>
  A caller that does not \<open>await\<close> the promise of \<open>refresh\<close> goes on whether it is rejected or
  not; the effects \<open>refresh\<close> made stay.
\<close>

definition refresh_unawaited ::
  "RefreshReason option \<Rightarrow> git_explorer \<Rightarrow> world \<Rightarrow> git_explorer \<times> world" where
  "refresh_unawaited reason this w =
     (case GitExplorer_refresh reason this w of
        Inl (e, w') \<Rightarrow> (this, w')
      | Inr (this', w') \<Rightarrow> (this', w'))"

definition onRepositoriesChanged :: "git_explorer \<Rightarrow> world \<Rightarrow> git_explorer \<times> world" where
  "onRepositoriesChanged this w =
     refresh_unawaited (Some RepoChanged) this (emit LogRepositoriesChanged w)"

text \<open>
  JavaScript numbers, as far as counts go: the doubles that are whole numbers, the two
  infinities and \<open>NaN\<close> (\<open>Number i\<close> stands for a double when \<open>i\<close> has at most 53 significant
  bits and is below \<open>2 ^ 1024\<close> in magnitude; fractions are not modelled). A sum is the exact
  sum rounded to 53 significant bits, ties to even, and an infinity when the rounded sum
  reaches \<open>2 ^ 1024\<close>. \<open>exponent_shift a\<close> is the number of low bits of \<open>a\<close> a double drops.
\<close>

datatype js_number = Number int | Infinity | MinusInfinity | NaN

fun exponent_shift :: "nat \<Rightarrow> nat" where
  "exponent_shift a = (if a < 9007199254740992 then 0 else Suc (exponent_shift (a div 2)))"

declare exponent_shift.simps [simp del]

definition round_to_double :: "int \<Rightarrow> int" where
  "round_to_double x =
     (let a = nat \<bar>x\<bar>;
          e = exponent_shift a;
          q = a div 2 ^ e;
          r = a mod 2 ^ e;
          q' = (if 2 ^ e < 2 * r \<or> (2 * r = 2 ^ e \<and> odd q) then Suc q else q)
      in sgn x * int (q' * 2 ^ e))"

definition js_number_of :: "int \<Rightarrow> js_number" where
  "js_number_of x =
     (let r = round_to_double x
      in if 2 ^ 1024 \<le> r then Infinity
         else if r \<le> - (2 ^ 1024) then MinusInfinity
         else Number r)"

fun js_add :: "js_number \<Rightarrow> js_number \<Rightarrow> js_number" where
  "js_add (Number a) (Number b) = js_number_of (a + b)"
| "js_add NaN y = NaN"
| "js_add x NaN = NaN"
| "js_add Infinity MinusInfinity = NaN"
| "js_add MinusInfinity Infinity = NaN"
| "js_add Infinity y = Infinity"
| "js_add MinusInfinity y = MinusInfinity"
| "js_add (Number a) Infinity = Infinity"
| "js_add (Number a) MinusInfinity = MinusInfinity"





text \<open>\<open>enabled && workspaceEnabled\<close>, the value handed to \<open>setCommandContext\<close>.\<close>

definition js_and :: "bool \<Rightarrow> bool option \<Rightarrow> context_value" where
  "js_and a b =
     (if a then (case b of None \<Rightarrow> CtxUndefined | Some v \<Rightarrow> CtxBool v) else CtxBool False)"

definition setAutoRefresh ::
  "bool \<Rightarrow> bool option \<Rightarrow> git_explorer \<Rightarrow> world \<Rightarrow> git_explorer \<times> world" where
  "setAutoRefresh enabled' workspaceEnabled this w =
     (case (case autoRefreshDisposable this of
              None \<Rightarrow> (this, w)
            | Some d \<Rightarrow> (this\<lparr>autoRefreshDisposable := None\<rparr>, dispose d w)) of
        (this1, w1) \<Rightarrow>
     (case (if enabled'
            then (case (case workspaceEnabled of
                          None \<Rightarrow> (False, workspaceState_get w1 True, w1)
                        | Some b \<Rightarrow>
                            (b, b, emit FireDidChangeAutoRefresh (update_workspaceState b w1))) of
                    (toggled, we, w') \<Rightarrow>
                      if we
                      then (case onDidChangeRepositories w' of
                              (d, w'') \<Rightarrow>
                                (toggled, Some we, this1\<lparr>autoRefreshDisposable := Some d\<rparr>,
                                 w''\<lparr>subscriptions := subscriptions w'' @ [d]\<rparr>))
                      else (toggled, Some we, this1, w'))
            else (False, workspaceEnabled, this1, w1)) of
        (toggled, workspaceEnabled', this2, w2) \<Rightarrow>
     (let w3 = setCommandContext GitExplorerAutoRefresh (js_and enabled' workspaceEnabled') w2
      in if toggled then refresh_unawaited (Some AutoRefreshChanged) this2 w3
         else (this2, w3))))"

text \<open>
  With \<open>enabled\<close> true and an override \<open>b\<close> given, \<open>setAutoRefresh\<close> suspends at
  \<open>await workspaceState.update(...)\<close>, after the old handle is disposed and before the
  notification is fired and the listener subscribed; its callers do not await it, so other
  calls can run in between. The call in two parts: what runs until the await, and what runs
  when it resumes, on the explorer and the environment as they are by then. (On the other
  paths of \<open>setAutoRefresh\<close> there is no await.)
\<close>

definition setAutoRefresh_until_await ::
  "bool \<Rightarrow> git_explorer \<Rightarrow> world \<Rightarrow> git_explorer \<times> world" where
  "setAutoRefresh_until_await b this w =
     (case (case autoRefreshDisposable this of
              None \<Rightarrow> (this, w)
            | Some d \<Rightarrow> (this\<lparr>autoRefreshDisposable := None\<rparr>, dispose d w)) of
        (this1, w1) \<Rightarrow> (this1, update_workspaceState b w1))"

definition setAutoRefresh_after_await ::
  "bool \<Rightarrow> git_explorer \<Rightarrow> world \<Rightarrow> git_explorer \<times> world" where
  "setAutoRefresh_after_await b this w =
     (case (if b
            then (case onDidChangeRepositories (emit FireDidChangeAutoRefresh w) of
                    (d, w') \<Rightarrow>
                      (this\<lparr>autoRefreshDisposable := Some d\<rparr>,
                       w'\<lparr>subscriptions := subscriptions w' @ [d]\<rparr>))
            else (this, emit FireDidChangeAutoRefresh w)) of
        (this2, w2) \<Rightarrow>
     (let w3 = setCommandContext GitExplorerAutoRefresh (js_and True (Some b)) w2
      in if b then refresh_unawaited (Some AutoRefreshChanged) this2 w3
         else (this2, w3)))"

text \<open>
  Two calls \<open>setAutoRefresh(true, a)\<close> and \<open>setAutoRefresh(true, b)\<close>, the second made while
  the first is suspended at its await; the first resumes first.
\<close>

definition overlapping_setAutoRefresh ::
  "bool \<Rightarrow> bool \<Rightarrow> git_explorer \<Rightarrow> world \<Rightarrow> git_explorer \<times> world" where
  "overlapping_setAutoRefresh a b this w =
     (case setAutoRefresh_until_await a this w of
        (this1, w1) \<Rightarrow>
     (case setAutoRefresh_until_await b this1 w1 of
        (this2, w2) \<Rightarrow>
     (case setAutoRefresh_after_await a this2 w2 of
        (this3, w3) \<Rightarrow> setAutoRefresh_after_await b this3 w3)))"

text \<open>
  Modelled from the spec: the configuration system (``change-event notifications with
  path-scoped `did this setting change' queries'') is not among the sources. An event is
  the initializing event or carries the keys that changed, each a path of segments below
  the extension's section; a section is affected when a changed key lies at or below it, or
  it lies below a changed key.
\<close>

datatype ConfigurationChangeEvent = InitializingChangeEvent | ChangeEvent "string list list"

fun initializing :: "ConfigurationChangeEvent \<Rightarrow> bool" where
  "initializing InitializingChangeEvent = True"
| "initializing (ChangeEvent ks) = False"

fun changed :: "ConfigurationChangeEvent \<Rightarrow> string list \<Rightarrow> bool" where
  "changed InitializingChangeEvent s = False"
| "changed (ChangeEvent ks) s = list_ex (\<lambda>k. prefix s k \<or> prefix k s) ks"

text \<open>
  The block of \<open>onConfigurationChanged\<close> that runs when the view's location changed (or on
  initialization): the old handle, if any, is disposed and the emitter replaced; \<open>setRoot\<close>;
  a tree view is created under the id of the configured location, and \<open>disposable\<close> becomes
  the pair of the view and its visibility listener.
\<close>

definition rebind_tree :: "git_explorer \<Rightarrow> world \<Rightarrow> git_explorer \<times> world" where
  "rebind_tree this w =
     (case (case disposable this of
              None \<Rightarrow> (this, w)
            | Some hs \<Rightarrow>
                (case alloc (dispose_all hs w) of
                   (em, w') \<Rightarrow> (this\<lparr>onDidChangeTreeData := em\<rparr>, w'))) of
        (this3, w3) \<Rightarrow>
     (case setRoot this3 w3 of
        (this4, w4) \<Rightarrow>
     (case createTreeView (''gitlens.gitExplorer:'' @ location (gitExplorer w4)) w4 of
        (t, w5) \<Rightarrow>
     (case alloc w5 of
        (v, w6) \<Rightarrow> (this4\<lparr>tree := Some t, disposable := Some [t, v]\<rparr>, w6)))))"

definition onConfigurationChanged ::
  "ConfigurationChangeEvent \<Rightarrow> git_explorer \<Rightarrow> world \<Rightarrow> git_explorer \<times> world" where
  "onConfigurationChanged e this w =
     (let init = initializing e in
      if \<not> init \<and> \<not> changed e [''gitExplorer''] \<and> \<not> changed e [''explorers'']
           \<and> \<not> changed e [''defaultGravatarsStyle'']
      then (this, w)
      else
        (let w1 = (if init \<or> changed e [''gitExplorer'', ''enabled'']
                        \<or> changed e [''gitExplorer'', ''location'']
                   then setCommandContext GitExplorer
                          (if enabled (gitExplorer w) then CtxString (location (gitExplorer w))
                           else CtxBool False) w
                   else w)
         in case (if init \<or> changed e [''gitExplorer'', ''autoRefresh'']
                  then setAutoRefresh (autoRefresh (gitExplorer w1)) None this w1
                  else (this, w1)) of
              (this2, w2) \<Rightarrow>
         (case (if init \<or> changed e [''gitExplorer'', ''location'']
                then rebind_tree this2 w2
                else (this2, w2)) of
            (this7, w7) \<Rightarrow>
              if \<not> init \<and> root this7 \<noteq> None
              then refresh_unawaited (Some ConfigurationChanged) this7 w7
              else (this7, w7))))"

section \<open>LineHoverController\<close>

text \<open>
  Modelled from the spec: the commit classes and the line tracker's state are not among the
  sources (``commit objects with {sha, repoPath, uri, isUncommitted, previousSha,
  previousFileName}'', ``\<open>getState(lineNumber)\<close> \<open>\<rightarrow>\<close> {commit, logCommit}''). Commits are
  snapshots that come from the git backend; the blame commit of a line and the fuller log
  commit have the fields below in common (\<open>fsPath\<close> is \<open>uri.fsPath\<close>).
\<close>

record git_commit =
  sha :: string
  repoPath :: string
  fsPath :: string
  isUncommitted :: bool
  previousSha :: "string option"
  previousFileName :: "string option"
  message :: string

record line_state =
  commit :: "git_commit option"
  logCommit :: "git_commit option"

record position =
  line :: nat
  character :: nat

record range =
  range_start :: position
  range_end :: position

record text_document =
  doc_uri :: string
  doc_lines :: "string list"

definition MAX_SAFE_INTEGER :: nat where
  "MAX_SAFE_INTEGER = 9007199254740991"

text \<open>
  The host's \<open>TextDocument.validateRange\<close>, which the sources call and do not define: each
  end of the range is moved into the document, a line past the last one to the end of the
  last line, a character past the end of its line to the end of that line. Lines and
  characters are counted from 0 and are not negative here.
\<close>

definition validatePosition :: "text_document \<Rightarrow> position \<Rightarrow> position" where
  "validatePosition d p =
     (if doc_lines d = [] then \<lparr>line = 0, character = 0\<rparr>
      else if length (doc_lines d) \<le> line p
      then \<lparr>line = length (doc_lines d) - 1, character = length (last (doc_lines d))\<rparr>
      else \<lparr>line = line p, character = min (character p) (length (doc_lines d ! line p))\<rparr>)"

definition validateRange :: "text_document \<Rightarrow> range \<Rightarrow> range" where
  "validateRange d r =
     \<lparr>range_start = validatePosition d (range_start r),
      range_end = validatePosition d (range_end r)\<rparr>"

definition new_Range :: "nat \<Rightarrow> nat \<Rightarrow> nat \<Rightarrow> nat \<Rightarrow> range" where
  "new_Range l1 c1 l2 c2 =
     \<lparr>range_start = \<lparr>line = l1, character = c1\<rparr>, range_end = \<lparr>line = l2, character = c2\<rparr>\<rparr>"

text \<open>
  \<open>Annotations.getHoverMessage\<close> and the message of \<open>Annotations.changesHover\<close> are kept as
  what they were built from: the commit, the date format, the remotes, the annotation type
  and the line for the first, the text the diff gave for the second.
\<close>

datatype hover_message =
    DetailsMessage git_commit "string option" "string list" "string option" nat
  | ChangesMessage string

record hover =
  contents :: hover_message
  hover_range :: range

datatype git_call =
    GetLogCommitForFile string string string
  | GetRemotes string

text \<open>
  What the two providers read through \<open>Container\<close>: the line tracker (\<open>tracker_includes\<close>,
  \<open>getState\<close>), the annotation type of the active editor, the settings under \<open>hovers\<close>,
  whether the line annotations are suspended, the git backend (\<open>getLogCommitForFile\<close>,
  \<open>getRemotes\<close>, with the calls made on it in \<open>git_calls\<close>), the document tracker and the
  diff behind \<open>Annotations.changesHover\<close>.
\<close>

record hover_env =
  tracker_includes :: "nat \<Rightarrow> bool"
  getState :: "nat \<Rightarrow> line_state option"
  getAnnotationType :: "string option"
  hovers_annotations_details :: bool
  hovers_annotations_changes :: bool
  hovers_currentLine_over :: string
  defaultDateFormat :: "string option"
  lineAnnotations_suspended :: bool
  getLogCommitForFile :: "string \<Rightarrow> string \<Rightarrow> string \<Rightarrow> git_commit option"
  getRemotes :: "string \<Rightarrow> string list"
  tracker_get :: "string \<Rightarrow> string option"
  changesHover :: "git_commit \<Rightarrow> nat \<Rightarrow> string \<Rightarrow> string option"
  git_calls :: "git_call list"

record line_hover_controller =
  debugSessionEndDisposable :: "nat option"

definition debugging :: "line_hover_controller \<Rightarrow> bool" where
  "debugging this = (debugSessionEndDisposable this \<noteq> None)"

text \<open>
  \<open>h\<close> is the handle \<open>debug.onDidTerminateDebugSession\<close> returns when the first session starts.
\<close>

definition onDebugSessionStarted :: "nat \<Rightarrow> line_hover_controller \<Rightarrow> line_hover_controller" where
  "onDebugSessionStarted h this =
     (if debugSessionEndDisposable this = None then this\<lparr>debugSessionEndDisposable := Some h\<rparr>
      else this)"

definition onDebugSessionEnded :: "line_hover_controller \<Rightarrow> line_hover_controller" where
  "onDebugSessionEnded this = this\<lparr>debugSessionEndDisposable := None\<rparr>"

definition wholeLine :: "line_hover_controller \<Rightarrow> hover_env \<Rightarrow> bool" where
  "wholeLine this env =
     (if debugging this then False else hovers_currentLine_over env = ''line'')"

definition hover_range_of ::
  "line_hover_controller \<Rightarrow> text_document \<Rightarrow> position \<Rightarrow> hover_env \<Rightarrow> range" where
  "hover_range_of this document p env =
     validateRange document
       (new_Range (line p) (if wholeLine this env then 0 else MAX_SAFE_INTEGER)
          (line p) MAX_SAFE_INTEGER)"

text \<open>
  The upgrade of the blame commit to the log commit in \<open>provideDetailsHover\<close>: the commit to
  show, if any, and the environment with the call recorded and the line's state updated.
\<close>

definition upgrade_logCommit ::
  "nat \<Rightarrow> line_state option \<Rightarrow> git_commit \<Rightarrow> hover_env \<Rightarrow> git_commit option \<times> hover_env" where
  "upgrade_logCommit l lineState c env =
     (let logCommit0 = (case lineState of None \<Rightarrow> None | Some ls \<Rightarrow> logCommit ls) in
      if logCommit0 = None \<and> \<not> isUncommitted c
      then (let env1 = env\<lparr>git_calls := git_calls env
                               @ [GetLogCommitForFile (repoPath c) (fsPath c) (sha c)]\<rparr>
            in case getLogCommitForFile env (repoPath c) (fsPath c) (sha c) of
                 None \<Rightarrow> (None, env1)
               | Some lc \<Rightarrow>
                   (let lc' = lc\<lparr>previousSha := previousSha c,
                                 previousFileName := previousFileName c\<rparr>
                    in (Some lc',
                        case lineState of
                          None \<Rightarrow> env1
                        | Some ls \<Rightarrow>
                            env1\<lparr>getState := (getState env1)(l \<mapsto> ls\<lparr>logCommit := Some lc'\<rparr>)\<rparr>)))
      else (logCommit0, env))"

definition provideDetailsHover ::
  "line_hover_controller \<Rightarrow> text_document \<Rightarrow> position \<Rightarrow> hover_env \<Rightarrow>
     hover option \<times> hover_env" where
  "provideDetailsHover this document p env =
     (if \<not> tracker_includes env (line p) then (None, env)
      else
        (let lineState = getState env (line p) in
         case (case lineState of None \<Rightarrow> None | Some ls \<Rightarrow> commit ls) of
           None \<Rightarrow> (None, env)
         | Some c \<Rightarrow>
             (let fileAnnotations = getAnnotationType env in
              if fileAnnotations \<noteq> None \<and> hovers_annotations_details env then (None, env)
              else if \<not> wholeLine this env \<and> lineAnnotations_suspended env then (None, env)
              else
                (let r = hover_range_of this document p env in
                 if \<not> wholeLine this env \<and> character (range_start r) \<noteq> character p
                 then (None, env)
                 else
                   (case upgrade_logCommit (line p) lineState c env of
                      (logCommit', env2) \<Rightarrow>
                        (case tracker_get env2 (doc_uri document) of
                           None \<Rightarrow> (None, env2)
                         | Some trackedDocument \<Rightarrow>
                             (Some \<lparr>contents =
                                      DetailsMessage
                                        (case logCommit' of None \<Rightarrow> c | Some lc \<Rightarrow> lc)
                                        (defaultDateFormat env2)
                                        (getRemotes env2 (repoPath c))
                                        fileAnnotations (line p),
                                    hover_range = r\<rparr>,
                              env2\<lparr>git_calls := git_calls env2 @ [GetRemotes (repoPath c)]\<rparr>)))))))"

definition provideChangesHover ::
  "line_hover_controller \<Rightarrow> text_document \<Rightarrow> position \<Rightarrow> hover_env \<Rightarrow>
     hover option \<times> hover_env" where
  "provideChangesHover this document p env =
     (if \<not> tracker_includes env (line p) then (None, env)
      else
        (case (case getState env (line p) of None \<Rightarrow> None | Some ls \<Rightarrow> commit ls) of
           None \<Rightarrow> (None, env)
         | Some c \<Rightarrow>
             if hovers_annotations_changes env \<and> getAnnotationType env \<noteq> None then (None, env)
             else if \<not> wholeLine this env \<and> lineAnnotations_suspended env then (None, env)
             else
               (let r = hover_range_of this document p env in
                if \<not> wholeLine this env \<and> character (range_start r) \<noteq> character p
                then (None, env)
                else
                  (case tracker_get env (doc_uri document) of
                     None \<Rightarrow> (None, env)
                   | Some uri \<Rightarrow>
                       (case changesHover env c (line p) uri of
                          None \<Rightarrow> (None, env)
                        | Some m \<Rightarrow>
                            (Some \<lparr>contents = ChangesMessage m, hover_range = r\<rparr>, env))))))"

section \<open>Sequences of calls and concrete inputs\<close>


text \<open>
  The effects made between two states of the environment, and the effects a \<open>refresh\<close> of
  the tree can make besides its log line.
\<close>

definition new_effects :: "world \<Rightarrow> world \<Rightarrow> effect list" where
  "new_effects w w' = drop (length (trace w)) (trace w')"

fun refresh_effect :: "effect \<Rightarrow> bool" where
  "refresh_effect (NodeRefresh i) = True"
| "refresh_effect (NodeDispose i) = True"
| "refresh_effect (FireDidChangeTreeData em n) = True"
| "refresh_effect e = False"

definition example_world :: world where
  "example_world =
     \<lparr>repositories = [], workspaceState = None,
      gitExplorer = \<lparr>enabled = True, location = ''gitlens'', autoRefresh = True\<rparr>,
      subscriptions = [], listeners = [], treeViews = [], next_id = 0, trace = []\<rparr>"

definition example_explorer :: git_explorer where
  "example_explorer =
     \<lparr>disposable = None, root = None, tree = None, autoRefreshDisposable = None,
      onDidChangeTreeData = 0\<rparr>"


definition fresh_root :: repositories_node where
  "fresh_root = \<lparr>rn_id = 100, children = None\<rparr>"

definition open_repo :: "string \<Rightarrow> int \<Rightarrow> repository" where
  "open_repo p i = \<lparr>path = p, normalizedPath = p, index = i, closed = False\<rparr>"

definition repo_a :: repository where
  "repo_a = \<lparr>path = ''/a'', normalizedPath = ''/a'', index = 1, closed = False\<rparr>"

definition repo_b :: repository where
  "repo_b = \<lparr>path = ''/b'', normalizedPath = ''/b'', index = 0, closed = True\<rparr>"

definition world_ab :: world where
  "world_ab = example_world\<lparr>repositories := [repo_a, repo_b]\<rparr>"

definition world_b :: world where
  "world_b = example_world\<lparr>repositories := [repo_b]\<rparr>"

definition cached_abc :: repositories_node where
  "cached_abc =
     \<lparr>rn_id = 100,
      children = Some [RepositoryNode 0 (open_repo ''/A'' 0), RepositoryNode 1 (open_repo ''/B'' 1),
                       RepositoryNode 2 (open_repo ''/C'' 2)]\<rparr>"

definition world_bcd :: world where
  "world_bcd =
     example_world\<lparr>repositories := [open_repo ''/D'' 3, open_repo ''/B'' 1, open_repo ''/C'' 2],
                   next_id := 3\<rparr>"

definition bound_explorer :: git_explorer where
  "bound_explorer =
     \<lparr>disposable = Some [1, 2], root = Some \<lparr>rn_id = 0, children = None\<rparr>, tree = Some 1,
      autoRefreshDisposable = None, onDidChangeTreeData = 3\<rparr>"

definition world_bound :: world where
  "world_bound =
     example_world\<lparr>gitExplorer := \<lparr>enabled = True, location = ''explorer'', autoRefresh = True\<rparr>,
                   treeViews := [(1, ''gitlens.gitExplorer:gitlens'')], next_id := 4\<rparr>"

definition location_changed :: ConfigurationChangeEvent where
  "location_changed = ChangeEvent ([''gitExplorer'', ''location''] # [])"

definition blame_commit :: git_commit where
  "blame_commit = \<lparr>sha = ''abc123'', repoPath = ''/a'', fsPath = ''/a/f.ts'', isUncommitted = False,
     previousSha = Some ''000111'', previousFileName = Some ''f.ts'', message = ''summary''\<rparr>"

definition uncommitted :: git_commit where
  "uncommitted = blame_commit\<lparr>sha := ''0000000000000000000000000000000000000000'', isUncommitted := True\<rparr>"

definition hover_document :: text_document where
  "hover_document = \<lparr>doc_uri = ''/a/f.ts'', doc_lines = [''hello'', ''world!'']\<rparr>"

definition hover_world :: hover_env where
  "hover_world =
     \<lparr>tracker_includes = (\<lambda>l. l = 0),
      getState = [0 \<mapsto> \<lparr>commit = Some uncommitted, logCommit = None\<rparr>],
      getAnnotationType = None,
      hovers_annotations_details = True,
      hovers_annotations_changes = True,
      hovers_currentLine_over = ''line'',
      defaultDateFormat = None,
      lineAnnotations_suspended = False,
      getLogCommitForFile = (\<lambda>r f s. Some (blame_commit\<lparr>message := ''full message''\<rparr>)),
      getRemotes = (\<lambda>r. []),
      tracker_get = (\<lambda>u. Some u),
      changesHover = (\<lambda>c l u. Some ''diff''),
      git_calls = []\<rparr>"

definition debugging_controller :: line_hover_controller where
  "debugging_controller = onDebugSessionStarted 9 \<lparr>debugSessionEndDisposable = None\<rparr>"

section \<open>Paging through refreshNode\<close>

text \<open>
  Sums of counts up to \<open>2 ^ 53\<close> in magnitude are exact; above, a double rounds: adding 1 to
  \<open>2 ^ 53\<close> leaves it as it is.
\<close>

lemma exponent_shift_small: "a < 9007199254740992 \<Longrightarrow> exponent_shift a = 0"
  by (simp add: exponent_shift.simps)

lemma exponent_shift_2_53: "exponent_shift 9007199254740992 = Suc 0"
  by (simp add: exponent_shift.simps[of 9007199254740992] exponent_shift_small)

lemma round_to_double_safe:
  assumes "\<bar>x\<bar> \<le> 9007199254740992"
  shows "round_to_double x = x"
proof (cases "\<bar>x\<bar> = 9007199254740992")
  case True
  then have a: "nat \<bar>x\<bar> = 9007199254740992" by simp
  have "round_to_double x = sgn x * 9007199254740992"
    by (simp add: round_to_double_def a exponent_shift_2_53 Let_def)
  also have "\<dots> = sgn x * \<bar>x\<bar>" using True by simp
  also have "\<dots> = x" by (rule sgn_mult_abs)
  finally show ?thesis .
next
  case False
  with assms have "nat \<bar>x\<bar> < 9007199254740992" by simp
  then have "round_to_double x = sgn x * \<bar>x\<bar>"
    by (simp add: round_to_double_def exponent_shift_small Let_def)
  also have "\<dots> = x" by (rule sgn_mult_abs)
  finally show ?thesis .
qed

lemma js_number_of_safe: "\<bar>x\<bar> \<le> 9007199254740992 \<Longrightarrow> js_number_of x = Number x"
proof -
  assume a: "\<bar>x\<bar> \<le> 9007199254740992"
  have "(9007199254740992::int) = 2 ^ 53" by simp
  also have "\<dots> < 2 ^ 1024" by (rule power_strict_increasing) simp_all
  finally have b: "(9007199254740992::int) < 2 ^ 1024" .
  from a b have "x < 2 ^ 1024" "- (2 ^ 1024) < x" by linarith+
  then show ?thesis
    by (simp add: js_number_of_def round_to_double_safe[OF a] Let_def del: power_numeral)
qed

lemma js_add_safe:
  "\<bar>a + b\<bar> \<le> 9007199254740992 \<Longrightarrow> js_add (Number a) (Number b) = Number (a + b)"
  by (simp add: js_number_of_safe)

lemma below_2_1024: "(x::int) \<le> 36028797018963968 \<Longrightarrow> \<not> 2 ^ 1024 \<le> x"
proof -
  assume a: "x \<le> 36028797018963968"
  have "(36028797018963968::int) = 2 ^ 55" by simp
  also have "\<dots> < 2 ^ 1024" by (rule power_strict_increasing) simp_all
  finally show ?thesis using a by linarith
qed

lemma above_minus_2_1024: "(0::int) \<le> x \<Longrightarrow> \<not> x \<le> - (2 ^ 1024)"
proof -
  assume a: "0 \<le> x"
  have "(0::int) < 2 ^ 1024" by simp
  with a show ?thesis by linarith
qed

lemma js_add_2_53: "js_add (Number 9007199254740992) (Number 1) = Number 9007199254740992"
proof -
  have e: "exponent_shift 9007199254740993 = Suc 0"
    by (simp add: exponent_shift.simps[of 9007199254740993] exponent_shift_small)
  have r: "round_to_double 9007199254740993 = 9007199254740992"
    by (simp add: round_to_double_def e Let_def)
  show ?thesis
    by (simp add: js_number_of_def r Let_def below_2_1024 above_minus_2_1024 del: power_numeral)
qed

lemma js_add_3c: "js_add (Number 18014398509481982) (Number 9007199254740991) = Number 27021597764222972"
proof -
  have e1: "exponent_shift 13510798882111486 = Suc 0"
    by (simp add: exponent_shift.simps[of 13510798882111486] exponent_shift_small)
  have e: "exponent_shift 27021597764222973 = Suc (Suc 0)"
    by (simp add: exponent_shift.simps[of 27021597764222973] e1)
  have r: "round_to_double 27021597764222973 = 27021597764222972"
    by (simp add: round_to_double_def e Let_def)
  show ?thesis
    by (simp add: js_number_of_def r Let_def below_2_1024 above_minus_2_1024 del: power_numeral)
qed






section \<open>RepositoriesNode: the first call of getChildren and the cache\<close>

lemma alloc_simp: "alloc w = (next_id w, w\<lparr>next_id := Suc (next_id w)\<rparr>)"
  by (simp add: alloc_def)

lemma new_RepositoryNode_simp:
  "new_RepositoryNode r w = (RepositoryNode (next_id w) r, w\<lparr>next_id := Suc (next_id w)\<rparr>)"
  by (simp add: new_RepositoryNode_def alloc_def)

lemma new_MessageNode_simp:
  "new_MessageNode m w = (MessageNode (next_id w) m, w\<lparr>next_id := Suc (next_id w)\<rparr>)"
  by (simp add: new_MessageNode_def alloc_def)

lemma getChildren_loop_eq:
  "getChildren_loop rs cs w =
     (cs @ map (\<lambda>(i, r). RepositoryNode i r)
              (enumerate (next_id w) (filter (\<lambda>r. \<not> closed r) rs)),
      w\<lparr>next_id := next_id w + length (filter (\<lambda>r. \<not> closed r) rs)\<rparr>)"
  by (induction rs arbitrary: cs w) (simp_all add: new_RepositoryNode_simp)

lemma getChildren_uncached:
  "children this = None \<Longrightarrow>
   RepositoriesNode_getChildren this w =
     (if repositories w = []
      then ([MessageNode (next_id w) ''No repositories found''], this,
            w\<lparr>next_id := Suc (next_id w)\<rparr>)
      else (let cs = map (\<lambda>(i, r). RepositoryNode i r)
                       (enumerate (next_id w)
                          (filter (\<lambda>r. \<not> closed r) (sort_repositories (repositories w))))
            in (cs, this\<lparr>children := Some cs\<rparr>, w\<lparr>next_id := next_id w + length cs\<rparr>)))"
  by (simp add: RepositoriesNode_getChildren_def getChildren_loop_eq new_MessageNode_simp Let_def)

lemma getChildren_from_cache:
  "children this = Some cs \<Longrightarrow> RepositoriesNode_getChildren this w = (cs, this, w)"
  by (simp add: RepositoriesNode_getChildren_def)

text \<open>
  Claim C3, as the code has it. On the first call (nothing cached) \<open>getChildren\<close> returns the
  single placeholder exactly when the repository set is empty. For a set that is not empty it
  returns one new \<open>RepositoryNode\<close> for each repository that is not closed, in the order of
  the set sorted by ascending index; when every repository of the set is closed, that is the
  empty list and not a placeholder.
\<close>

theorem getChildren_first_call:
  assumes "children this = None"
  shows "fst (RepositoriesNode_getChildren this w) =
           (if repositories w = [] then [MessageNode (next_id w) ''No repositories found'']
            else map (\<lambda>(i, r). RepositoryNode i r)
                   (enumerate (next_id w)
                      (filter (\<lambda>r. \<not> closed r) (sort_repositories (repositories w)))))
       \<and> sorted (map index (filter (\<lambda>r. \<not> closed r) (sort_repositories (repositories w))))
       \<and> mset (filter (\<lambda>r. \<not> closed r) (sort_repositories (repositories w)))
           = filter_mset (\<lambda>r. \<not> closed r) (mset (repositories w))
       \<and> ((\<exists>i. fst (RepositoriesNode_getChildren this w)
                  = [MessageNode i ''No repositories found''])
            \<longleftrightarrow> repositories w = [])"
proof -
  let ?rs = "filter (\<lambda>r. \<not> closed r) (sort_repositories (repositories w))"
  have s: "sorted (map index ?rs)"
    by (simp add: sort_repositories_def sorted_filter)
  have m: "mset ?rs = filter_mset (\<lambda>r. \<not> closed r) (mset (repositories w))"
    by (simp add: sort_repositories_def)
  have no_msg: "map (\<lambda>(i, r). RepositoryNode i r) xs \<noteq> [MessageNode i m]" for xs i m
    by (cases xs) auto
  show ?thesis
    using assms s m by (auto simp: getChildren_uncached Let_def no_msg)
qed

text \<open>
  Claim C7, as the code has it. When the repository set is not empty, or children are cached
  already, \<open>getChildren\<close> leaves what it returns in the cache, and a second call returns the
  same list, the same instances, without asking the backend and whatever the environment is
  by then. With an empty repository set and nothing cached, the call caches nothing: it
  returns a placeholder it has just constructed.
\<close>

theorem getChildren_cached:
  assumes "RepositoriesNode_getChildren this w = (cs, this', w')"
  shows "(repositories w \<noteq> [] \<or> children this \<noteq> None \<longrightarrow>
            children this' = Some cs
          \<and> RepositoriesNode_getChildren this' w'' = (cs, this', w''))
       \<and> (repositories w = [] \<and> children this = None \<longrightarrow>
            children this' = None
          \<and> cs = [MessageNode (next_id w) ''No repositories found'']
          \<and> next_id w' = Suc (next_id w))"
proof (cases "children this")
  case None
  with assms show ?thesis
    by (auto simp: getChildren_uncached Let_def getChildren_from_cache split: if_splits)
next
  case (Some old)
  with assms show ?thesis
    by (auto simp: getChildren_from_cache)
qed

section \<open>RepositoriesNode: reconciliation in refresh\<close>

lemma find_child_eq:
  "\<forall>c\<in>set old. is_RepositoryNode c \<Longrightarrow>
   find_child old p = Inr (List.find (\<lambda>c. node_path c = Some p) old)"
proof (induction old)
  case Nil
  then show ?case by simp
next
  case (Cons c old)
  then show ?case by (cases c) auto
qed

lemma refresh_loop_eq:
  assumes "\<forall>c\<in>set old. is_RepositoryNode c"
  shows "refresh_loop rs old cs w =
     Inr (cs @ reconcile rs old (next_id w),
          w\<lparr>next_id := next_id w + length (filter (\<lambda>r. lookup_child old r = None) rs),
            trace := trace w @ map (\<lambda>c. NodeRefresh (node_id c))
                                 (List.map_filter (lookup_child old) rs)\<rparr>)"
proof (induction rs arbitrary: cs w)
  case Nil
  then show ?case by simp
next
  case (Cons r rs)
  show ?case
  proof (cases "lookup_child old r")
    case None
    then show ?thesis
      using assms Cons
      by (simp add: find_child_eq lookup_child_def new_RepositoryNode_simp)
  next
    case (Some c)
    then show ?thesis
      using assms Cons
      by (simp add: find_child_eq lookup_child_def emit_def)
  qed
qed

lemma dispose_loop_eq:
  "dispose_loop old cs w =
     w\<lparr>trace := trace w @ map (\<lambda>c. NodeDispose (node_id c))
                            (filter (\<lambda>c. \<not> includes_child cs c) old)\<rparr>"
  by (induction old arbitrary: w) (simp_all add: emit_def)

lemma lookup_child_Some:
  "lookup_child old r = Some c \<Longrightarrow> c \<in> set old \<and> node_path c = Some (normalizedPath r)"
  by (auto simp: lookup_child_def find_Some_iff)

lemma lookup_child_None:
  "lookup_child old r = None \<longleftrightarrow> Some (normalizedPath r) \<notin> node_path ` set old"
  by (auto simp: lookup_child_def find_None_iff image_iff)

lemma lookup_child_unique:
  assumes "distinct (map node_path old)" "c \<in> set old" "node_path c = Some (normalizedPath r)"
  shows "lookup_child old r = Some c"
proof -
  obtain c' where c': "lookup_child old r = Some c'"
    using assms(2,3) lookup_child_None[of old r] by (cases "lookup_child old r") force+
  then have "c' \<in> set old" "node_path c' = node_path c"
    using lookup_child_Some[OF c'] assms(3) by auto
  then have "c' = c"
    using assms(1,2) by (meson distinct_map inj_on_def)
  with c' show ?thesis by simp
qed

lemma reconcile_paths:
  "map node_path (reconcile rs old n) = map (\<lambda>r. Some (normalizedPath r)) rs"
  by (induction rs arbitrary: n) (auto split: option.splits dest: lookup_child_Some)

lemma kept_subset: "set (List.map_filter (lookup_child old) rs) \<subseteq> set (reconcile rs old n)"
  by (induction rs arbitrary: n) (auto split: option.splits)

lemma kept_old: "set (List.map_filter (lookup_child old) rs) \<subseteq> set old"
  by (induction rs) (auto split: option.splits dest: lookup_child_Some)

lemma kept_paths:
  "map node_path (List.map_filter (lookup_child old) rs) =
     map (\<lambda>r. Some (normalizedPath r)) (filter (\<lambda>r. lookup_child old r \<noteq> None) rs)"
  by (induction rs) (auto split: option.splits dest: lookup_child_Some)

lemma kept_mem:
  "r \<in> set rs \<Longrightarrow> lookup_child old r = Some c \<Longrightarrow>
   c \<in> set (List.map_filter (lookup_child old) rs)"
  by (induction rs) (auto split: option.splits)

lemma reconcile_mem:
  "c \<in> set (reconcile rs old n) \<Longrightarrow>
     c \<in> set (List.map_filter (lookup_child old) rs)
   \<or> (n \<le> node_id c \<and> node_id c < n + length (filter (\<lambda>r. lookup_child old r = None) rs))"
proof (induction rs arbitrary: n)
  case Nil
  then show ?case by simp
next
  case (Cons r rs)
  show ?case
  proof (cases "lookup_child old r")
    case None
    with Cons.prems have "c = RepositoryNode n r \<or> c \<in> set (reconcile rs old (Suc n))" by simp
    then show ?thesis
    proof
      assume "c = RepositoryNode n r" then show ?thesis using None by simp
    next
      assume "c \<in> set (reconcile rs old (Suc n))"
      from Cons.IH[OF this] show ?thesis using None by auto
    qed
  next
    case (Some c')
    with Cons.prems have "c = c' \<or> c \<in> set (reconcile rs old n)" by simp
    then show ?thesis
    proof
      assume "c = c'" then show ?thesis using Some by simp
    next
      assume "c \<in> set (reconcile rs old n)"
      from Cons.IH[OF this] show ?thesis using Some by auto
    qed
  qed
qed

lemma reconcile_distinct:
  assumes "distinct (map normalizedPath rs)" "distinct (map node_id old)"
    "\<forall>c\<in>set old. node_id c < n"
  shows "distinct (map node_id (reconcile rs old n))"
  using assms
proof (induction rs arbitrary: n)
  case Nil
  then show ?case by simp
next
  case (Cons r rs)
  show ?case
  proof (cases "lookup_child old r")
    case None
    have "\<forall>c\<in>set old. node_id c < Suc n" using Cons.prems(3) by auto
    with Cons have d: "distinct (map node_id (reconcile rs old (Suc n)))" by simp
    have "n \<notin> node_id ` set (reconcile rs old (Suc n))"
    proof
      assume "n \<in> node_id ` set (reconcile rs old (Suc n))"
      then obtain c where c: "c \<in> set (reconcile rs old (Suc n))" "node_id c = n" by auto
      from reconcile_mem[OF c(1)] c(2) kept_old[of old rs] Cons.prems(3)
      show False by auto
    qed
    with d None show ?thesis by simp
  next
    case (Some c')
    from Cons have d: "distinct (map node_id (reconcile rs old n))" by simp
    have c': "c' \<in> set old" "node_path c' = Some (normalizedPath r)"
      using lookup_child_Some[OF Some] by auto
    have "node_id c' \<notin> node_id ` set (reconcile rs old n)"
    proof
      assume "node_id c' \<in> node_id ` set (reconcile rs old n)"
      then obtain c where c: "c \<in> set (reconcile rs old n)" "node_id c = node_id c'" by auto
      from reconcile_mem[OF c(1)] have "c \<in> set (List.map_filter (lookup_child old) rs)"
        using c(2) c'(1) Cons.prems(3) by auto
      then have "c \<in> set old" and "node_path c \<in> set (map node_path (List.map_filter (lookup_child old) rs))"
        using kept_old[of old rs] by auto
      then have "c = c'" using c(2) c'(1) Cons.prems(2)
        by (meson distinct_map inj_on_def)
      moreover have "node_path c \<in> (\<lambda>r. Some (normalizedPath r)) ` set rs"
        using \<open>node_path c \<in> set (map node_path (List.map_filter (lookup_child old) rs))\<close>
        unfolding kept_paths by auto
      ultimately have "normalizedPath r \<in> normalizedPath ` set rs" using c'(2) by auto
      with Cons.prems(1) show False by simp
    qed
    with d Some show ?thesis by simp
  qed
qed


lemma refresh_eq:
  assumes "children this = Some old" "\<forall>c\<in>set old. is_RepositoryNode c" "repositories w \<noteq> []"
  shows "RepositoriesNode_refresh this w =
     Inr (this\<lparr>children := Some (reconcile (sort_repositories (repositories w)) old (next_id w))\<rparr>,
          w\<lparr>next_id := next_id w
               + length (filter (\<lambda>r. lookup_child old r = None)
                           (sort_repositories (repositories w))),
            trace := trace w
               @ map (\<lambda>c. NodeRefresh (node_id c))
                   (List.map_filter (lookup_child old) (sort_repositories (repositories w)))
               @ map (\<lambda>c. NodeDispose (node_id c))
                   (filter (\<lambda>c. \<not> includes_child
                        (reconcile (sort_repositories (repositories w)) old (next_id w)) c) old)\<rparr>)"
  using assms
  by (simp add: RepositoriesNode_refresh_def refresh_loop_eq dispose_loop_eq)

lemma count_list_distinct:
  "distinct xs \<Longrightarrow> x \<in> set xs \<Longrightarrow> count_list xs x = 1"
  by (induction xs) auto

lemma count_refresh_map:
  "count_list (map (\<lambda>c. NodeRefresh (node_id c)) xs) (NodeRefresh i) = count_list (map node_id xs) i"
  by (induction xs) auto

lemma count_dispose_map:
  "count_list (map (\<lambda>c. NodeDispose (node_id c)) xs) (NodeDispose i) = count_list (map node_id xs) i"
  by (induction xs) auto

lemma count_refresh_dispose:
  "count_list (map (\<lambda>c. NodeDispose (node_id c)) xs) (NodeRefresh i) = 0"
  "count_list (map (\<lambda>c. NodeRefresh (node_id c)) xs) (NodeDispose i) = 0"
  by (induction xs) auto

lemma sort_repositories_paths:
  "distinct (map normalizedPath (sort_repositories rs)) = distinct (map normalizedPath rs)"
  "set (sort_repositories rs) = set rs"
proof -
  have "mset (map normalizedPath (sort_repositories rs)) = mset (map normalizedPath rs)"
    by (simp add: sort_repositories_def)
  then show "distinct (map normalizedPath (sort_repositories rs)) = distinct (map normalizedPath rs)"
    by (metis mset_eq_imp_distinct_iff)
  show "set (sort_repositories rs) = set rs"
    by (simp add: sort_repositories_def)
qed

text \<open>
  Claim C8. The cache holds repository nodes, distinct instances created earlier, one for
  each of a set of distinct normalized paths; the backend returns a non-empty set of
  repositories with distinct normalized paths. Then \<open>refresh\<close> returns normally and the new
  cache has exactly one child for each path of the repository set, in the order of the sorted
  set, all distinct instances. A cached child whose path is in the set is in the new cache,
  the same instance, and was asked to refresh once and not disposed; a cached child whose
  path is not in the set is not in the new cache and was disposed once and not refreshed; a
  child of the new cache that was not cached carries an identity allocated during the call
  and was neither refreshed nor disposed.
\<close>

theorem refresh_reconciles:
  assumes cache: "children this = Some old"
      and nodes: "\<forall>c\<in>set old. is_RepositoryNode c"
      and ids: "distinct (map node_id old)" "\<forall>c\<in>set old. node_id c < next_id w"
      and paths: "distinct (map node_path old)"
      and R: "repositories w \<noteq> []" "distinct (map normalizedPath (repositories w))"
  shows "\<exists>new w' seg.
      RepositoriesNode_refresh this w = Inr (this\<lparr>children := Some new\<rparr>, w')
    \<and> trace w' = trace w @ seg
    \<and> map node_path new = map (\<lambda>r. Some (normalizedPath r)) (sort_repositories (repositories w))
    \<and> distinct (map node_id new)
    \<and> (\<forall>c\<in>set old. node_path c \<in> set (map node_path new) \<longrightarrow>
          c \<in> set new \<and> count_list seg (NodeRefresh (node_id c)) = 1
          \<and> count_list seg (NodeDispose (node_id c)) = 0)
    \<and> (\<forall>c\<in>set old. node_path c \<notin> set (map node_path new) \<longrightarrow>
          c \<notin> set new \<and> count_list seg (NodeDispose (node_id c)) = 1
          \<and> count_list seg (NodeRefresh (node_id c)) = 0)
    \<and> (\<forall>c\<in>set new. c \<notin> set old \<longrightarrow>
          next_id w \<le> node_id c \<and> node_id c < next_id w'
          \<and> count_list seg (NodeRefresh (node_id c)) = 0
          \<and> count_list seg (NodeDispose (node_id c)) = 0)"
proof -
  let ?rs = "sort_repositories (repositories w)"
  let ?new = "reconcile ?rs old (next_id w)"
  let ?kept = "List.map_filter (lookup_child old) ?rs"
  let ?gone = "filter (\<lambda>c. \<not> includes_child ?new c) old"
  let ?seg = "map (\<lambda>c. NodeRefresh (node_id c)) ?kept @ map (\<lambda>c. NodeDispose (node_id c)) ?gone"
  let ?k = "length (filter (\<lambda>r. lookup_child old r = None) ?rs)"
  let ?w' = "w\<lparr>next_id := next_id w + ?k, trace := trace w @ ?seg\<rparr>"
  have inj: "inj_on node_id (set old)" and injp: "inj_on node_path (set old)"
    using ids(1) paths by (simp_all add: distinct_map)
  have drs: "distinct (map normalizedPath ?rs)"
    using R(2) by (simp add: sort_repositories_paths)
  have eq: "RepositoriesNode_refresh this w = Inr (this\<lparr>children := Some ?new\<rparr>, ?w')"
    using refresh_eq[OF cache nodes R(1)] by simp
  have tr: "trace ?w' = trace w @ ?seg" by simp
  have p: "map node_path ?new = map (\<lambda>r. Some (normalizedPath r)) ?rs"
    by (rule reconcile_paths)
  have d: "distinct (map node_id ?new)"
    by (rule reconcile_distinct[OF drs ids(1) ids(2)])
  have kept_old': "set ?kept \<subseteq> set old" by (rule kept_old)
  have kept_new: "set ?kept \<subseteq> set ?new" by (rule kept_subset)
  have dkept: "distinct ?kept"
  proof -
    have "distinct (map normalizedPath (filter (\<lambda>r. lookup_child old r \<noteq> None) ?rs))"
      using drs by (rule distinct_map_filter)
    then have "distinct (map node_path ?kept)"
      unfolding kept_paths by (auto simp: distinct_map inj_on_def)
    then show ?thesis by (simp add: distinct_map)
  qed
  have dkept_ids: "distinct (map node_id ?kept)"
    using dkept kept_old' inj by (auto simp: distinct_map intro: inj_on_subset)
  have new_old: "c \<in> set ?kept" if "c \<in> set ?new" "node_id c < next_id w" for c
    using reconcile_mem[OF that(1)] that(2) by auto
  have incl: "includes_child ?new c \<longleftrightarrow> c \<in> set ?kept" if "c \<in> set old" for c
  proof
    assume "includes_child ?new c"
    then obtain c' where c': "c' \<in> set ?new" "node_id c' = node_id c"
      by (auto simp: includes_child_def)
    then have "c' \<in> set ?kept" using new_old[of c'] ids(2) that by auto
    then have "c' \<in> set old" using kept_old' by auto
    then have "c' = c" using c'(2) that inj by (auto dest: inj_onD)
    with \<open>c' \<in> set ?kept\<close> show "c \<in> set ?kept" by simp
  next
    assume "c \<in> set ?kept"
    then show "includes_child ?new c" using kept_new by (auto simp: includes_child_def)
  qed
  have gone: "?gone = filter (\<lambda>c. c \<notin> set ?kept) old"
    by (rule filter_cong) (auto simp: incl)
  have dgone_ids: "distinct (map node_id ?gone)"
    using ids(1) by (simp add: distinct_map_filter)
  have kept_iff: "c \<in> set ?kept \<longleftrightarrow> node_path c \<in> set (map node_path ?new)" if "c \<in> set old" for c
  proof
    assume "c \<in> set ?kept"
    then show "node_path c \<in> set (map node_path ?new)" using kept_new by auto
  next
    assume "node_path c \<in> set (map node_path ?new)"
    then obtain r where r: "r \<in> set ?rs" "node_path c = Some (normalizedPath r)"
      unfolding p by auto
    have "lookup_child old r = Some c"
      by (rule lookup_child_unique[OF paths that r(2)])
    with r(1) show "c \<in> set ?kept"
      by (rule kept_mem)
  qed
  have cnt_kept: "count_list (map node_id ?kept) (node_id c) = 1" if "c \<in> set ?kept" for c
    using that dkept_ids by (intro count_list_distinct) auto
  have cnt_not_kept: "count_list (map node_id ?kept) (node_id c) = 0" if "c \<in> set old" "c \<notin> set ?kept" for c
  proof -
    have "node_id c \<notin> node_id ` set ?kept"
      using that kept_old' inj by (auto dest: inj_onD)
    then show ?thesis by simp
  qed
  have cnt_gone: "count_list (map node_id ?gone) (node_id c) = 1" if "c \<in> set old" "c \<notin> set ?kept" for c
    using that dgone_ids unfolding gone by (intro count_list_distinct) auto
  have cnt_not_gone: "count_list (map node_id ?gone) (node_id c) = 0" if "c \<in> set old" "c \<in> set ?kept" for c
  proof -
    have "node_id c \<notin> node_id ` set ?gone"
      unfolding gone using that inj by (auto dest: inj_onD)
    then show ?thesis by simp
  qed
  have A: "\<forall>c\<in>set old. node_path c \<in> set (map node_path ?new) \<longrightarrow>
          c \<in> set ?new \<and> count_list ?seg (NodeRefresh (node_id c)) = 1
          \<and> count_list ?seg (NodeDispose (node_id c)) = 0"
    using kept_iff kept_new cnt_kept cnt_not_gone
    by (auto simp: count_refresh_map count_dispose_map count_refresh_dispose simp del: set_map)
  have B: "\<forall>c\<in>set old. node_path c \<notin> set (map node_path ?new) \<longrightarrow>
          c \<notin> set ?new \<and> count_list ?seg (NodeDispose (node_id c)) = 1
          \<and> count_list ?seg (NodeRefresh (node_id c)) = 0"
  proof (intro ballI impI)
    fix c assume c: "c \<in> set old" "node_path c \<notin> set (map node_path ?new)"
    then have nk: "c \<notin> set ?kept" using kept_iff by blast
    have "c \<notin> set ?new" using c(2) by auto
    then show "c \<notin> set ?new \<and> count_list ?seg (NodeDispose (node_id c)) = 1
          \<and> count_list ?seg (NodeRefresh (node_id c)) = 0"
      using cnt_gone[OF c(1) nk] cnt_not_kept[OF c(1) nk]
      by (simp add: count_refresh_map count_dispose_map count_refresh_dispose)
  qed
  have C: "\<forall>c\<in>set ?new. c \<notin> set old \<longrightarrow>
          next_id w \<le> node_id c \<and> node_id c < next_id ?w'
          \<and> count_list ?seg (NodeRefresh (node_id c)) = 0
          \<and> count_list ?seg (NodeDispose (node_id c)) = 0"
  proof (intro ballI impI)
    fix c assume c: "c \<in> set ?new" "c \<notin> set old"
    then have "c \<notin> set ?kept" using kept_old' by auto
    with reconcile_mem[OF c(1)] have rng: "next_id w \<le> node_id c" "node_id c < next_id w + ?k"
      by auto
    have "node_id c \<notin> node_id ` set old" using rng(1) ids(2) by auto
    then have "node_id c \<notin> node_id ` set ?kept" "node_id c \<notin> node_id ` set ?gone"
      using kept_old' by auto
    then show "next_id w \<le> node_id c \<and> node_id c < next_id ?w'
          \<and> count_list ?seg (NodeRefresh (node_id c)) = 0
          \<and> count_list ?seg (NodeDispose (node_id c)) = 0"
      using rng by (simp add: count_refresh_map count_dispose_map count_refresh_dispose)
  qed
  show ?thesis
    using eq tr p d A B C by blast
qed

section \<open>RepositoriesNode: concrete runs\<close>

lemmas concrete_defs = fresh_root_def repo_a_def repo_b_def world_ab_def world_b_def
  example_world_def cached_abc_def world_bcd_def open_repo_def

text \<open>The scenario of claim C3: \<open>/a\<close> open with index 1, \<open>/b\<close> closed with index 0.\<close>

theorem getChildren_first_call_witness:
  "fst (RepositoriesNode_getChildren fresh_root world_ab) = [RepositoryNode 0 repo_a]"
proof -
  have h: "children fresh_root = None" by (simp add: fresh_root_def)
  have s: "sort_repositories (repositories world_ab) = [repo_b, repo_a]"
    by (simp add: sort_repositories_def concrete_defs)
  from getChildren_first_call[OF h, of world_ab] show ?thesis
    by (simp add: s) (simp add: concrete_defs)
qed

text \<open>
  A repository set whose only repository is closed has no open repository, and the first
  call returns the empty list: no placeholder.
\<close>

theorem getChildren_all_closed_counterexample:
  "filter (\<lambda>r. \<not> closed r) (repositories world_b) = []
   \<and> fst (RepositoriesNode_getChildren fresh_root world_b) = []"
  by (simp add: getChildren_uncached Let_def sort_repositories_def concrete_defs)

theorem getChildren_cached_witness:
  "RepositoriesNode_getChildren
     (fresh_root\<lparr>children := Some [RepositoryNode 0 repo_a]\<rparr>) example_world
   = ([RepositoryNode 0 repo_a], fresh_root\<lparr>children := Some [RepositoryNode 0 repo_a]\<rparr>,
      example_world)"
proof -
  have h: "repositories world_ab \<noteq> [] \<or> children fresh_root \<noteq> None"
    by (simp add: concrete_defs)
  have e: "RepositoriesNode_getChildren fresh_root world_ab =
     ([RepositoryNode 0 repo_a], fresh_root\<lparr>children := Some [RepositoryNode 0 repo_a]\<rparr>,
      world_ab\<lparr>next_id := 1\<rparr>)"
    by (simp add: getChildren_uncached Let_def sort_repositories_def concrete_defs)
  from getChildren_cached[OF e, of example_world] h show ?thesis by blast
qed

text \<open>
  With no repository the second call does not return the instance the first call returned:
  each call constructs a placeholder of its own.
\<close>

theorem getChildren_empty_twice_counterexample:
  "fst (RepositoriesNode_getChildren
          (fst (snd (RepositoriesNode_getChildren fresh_root example_world)))
          (snd (snd (RepositoriesNode_getChildren fresh_root example_world))))
   \<noteq> fst (RepositoriesNode_getChildren fresh_root example_world)"
  by (simp add: getChildren_uncached Let_def concrete_defs)

text \<open>
  Claim C4 at a concrete input. \<open>getChildren\<close> on the repositories \<open>/a\<close> (open) and \<open>/b\<close>
  (closed) caches a child for \<open>/a\<close> alone. \<open>refresh\<close> with the same repositories then
  constructs a child for \<open>/b\<close>: its loop has no check of \<open>closed\<close>, so the cache holds a
  child of a closed repository.
\<close>

theorem refresh_adds_closed_repository:
  "RepositoriesNode_getChildren fresh_root world_ab =
     ([RepositoryNode 0 repo_a], fresh_root\<lparr>children := Some [RepositoryNode 0 repo_a]\<rparr>,
      world_ab\<lparr>next_id := 1\<rparr>)
   \<and> RepositoriesNode_refresh (fresh_root\<lparr>children := Some [RepositoryNode 0 repo_a]\<rparr>)
        (world_ab\<lparr>next_id := 1\<rparr>) =
       Inr (fresh_root\<lparr>children := Some [RepositoryNode 1 repo_b, RepositoryNode 0 repo_a]\<rparr>,
            world_ab\<lparr>next_id := 2, trace := [NodeRefresh 0]\<rparr>)
   \<and> closed repo_b"
  by (simp add: getChildren_uncached Let_def RepositoriesNode_refresh_def sort_repositories_def
        new_RepositoryNode_simp emit_def includes_child_def concrete_defs)

text \<open>
  The scenario of claim C8: children for \<open>/A\<close>, \<open>/B\<close>, \<open>/C\<close> cached, and \<open>/D\<close>, \<open>/B\<close>, \<open>/C\<close>
  returned by the backend with indices 3, 1, 2.
\<close>

theorem refresh_reconciles_witness:
  "RepositoriesNode_refresh cached_abc world_bcd =
     Inr (cached_abc\<lparr>children :=
            Some [RepositoryNode 1 (open_repo ''/B'' 1), RepositoryNode 2 (open_repo ''/C'' 2),
                  RepositoryNode 3 (open_repo ''/D'' 3)]\<rparr>,
          world_bcd\<lparr>next_id := 4, trace := [NodeRefresh 1, NodeRefresh 2, NodeDispose 0]\<rparr>)"
proof -
  let ?old = "[RepositoryNode 0 (open_repo ''/A'' 0), RepositoryNode 1 (open_repo ''/B'' 1),
               RepositoryNode 2 (open_repo ''/C'' 2)]"
  have h1: "children cached_abc = Some ?old" by (simp add: cached_abc_def)
  have h2: "\<forall>c\<in>set ?old. is_RepositoryNode c" by simp
  have h3: "distinct (map node_id ?old)" by simp
  have h4: "\<forall>c\<in>set ?old. node_id c < next_id world_bcd" by (simp add: concrete_defs)
  have h5: "distinct (map node_path ?old)" by (simp add: open_repo_def)
  have h6: "repositories world_bcd \<noteq> []" by (simp add: concrete_defs)
  have h7: "distinct (map normalizedPath (repositories world_bcd))" by (simp add: concrete_defs)
  from refresh_reconciles[OF h1 h2 h3 h4 h5 h6 h7]
  obtain new w' seg where r: "RepositoriesNode_refresh cached_abc world_bcd =
      Inr (cached_abc\<lparr>children := Some new\<rparr>, w')"
    and p: "map node_path new = map (\<lambda>r. Some (normalizedPath r)) (sort_repositories (repositories world_bcd))"
    by blast
  have "RepositoriesNode_refresh cached_abc world_bcd =
     Inr (cached_abc\<lparr>children :=
            Some [RepositoryNode 1 (open_repo ''/B'' 1), RepositoryNode 2 (open_repo ''/C'' 2),
                  RepositoryNode 3 (open_repo ''/D'' 3)]\<rparr>,
          world_bcd\<lparr>next_id := 4, trace := [NodeRefresh 1, NodeRefresh 2, NodeDispose 0]\<rparr>)"
    by (simp add: RepositoriesNode_refresh_def sort_repositories_def
        new_RepositoryNode_simp emit_def includes_child_def concrete_defs)
  with r show ?thesis by simp
qed

section \<open>GitExplorer: the auto-refresh subscription\<close>

lemma new_effects_append: "trace w' = trace w @ seg \<Longrightarrow> new_effects w w' = seg"
  by (simp add: new_effects_def)

lemma refresh_loop_frame:
  "\<exists>n seg. case_sum snd snd (refresh_loop rs old cs w) = w\<lparr>next_id := n, trace := trace w @ seg\<rparr>
     \<and> next_id w \<le> n \<and> list_all refresh_effect seg"
proof (induction rs arbitrary: cs w)
  case Nil
  have "w = w\<lparr>next_id := next_id w, trace := trace w @ []\<rparr>" by simp
  then show ?case by (auto intro!: exI[of _ "next_id w"] exI[of _ "[]"])
next
  case (Cons r rs)
  show ?case
  proof (cases "find_child old (normalizedPath r)")
    case (Inl e)
    have "w = w\<lparr>next_id := next_id w, trace := trace w @ []\<rparr>" by simp
    with Inl show ?thesis by (auto intro!: exI[of _ "next_id w"] exI[of _ "[]"])
  next
    case (Inr found)
    show ?thesis
    proof (cases found)
      case None
      let ?w1 = "w\<lparr>next_id := Suc (next_id w)\<rparr>"
      from Cons[of "cs @ [RepositoryNode (next_id w) r]" ?w1]
      obtain n seg where
        "case_sum snd snd (refresh_loop rs old (cs @ [RepositoryNode (next_id w) r]) ?w1)
           = ?w1\<lparr>next_id := n, trace := trace ?w1 @ seg\<rparr>"
        "next_id ?w1 \<le> n" "list_all refresh_effect seg" by blast
      then show ?thesis using Inr None
        by (auto simp: new_RepositoryNode_simp intro!: exI[of _ n] exI[of _ seg])
    next
      case (Some child)
      let ?w1 = "emit (NodeRefresh (node_id child)) w"
      from Cons[of "cs @ [child]" ?w1]
      obtain n seg where
        "case_sum snd snd (refresh_loop rs old (cs @ [child]) ?w1)
           = ?w1\<lparr>next_id := n, trace := trace ?w1 @ seg\<rparr>"
        "next_id ?w1 \<le> n" "list_all refresh_effect seg" by blast
      then show ?thesis using Inr Some
        by (auto simp: emit_def intro!: exI[of _ n] exI[of _ "NodeRefresh (node_id child) # seg"])
    qed
  qed
qed

lemma dispose_loop_effects:
  "list_all refresh_effect (map (\<lambda>c. NodeDispose (node_id c)) xs)"
  by (induction xs) auto

lemma RepositoriesNode_refresh_frame:
  "\<exists>n seg. case_sum snd snd (RepositoriesNode_refresh r w) = w\<lparr>next_id := n, trace := trace w @ seg\<rparr>
     \<and> next_id w \<le> n \<and> list_all refresh_effect seg"
proof -
  have triv: "w = w\<lparr>next_id := next_id w, trace := trace w @ []\<rparr>" by simp
  show ?thesis
  proof (cases "children r")
    case None
    then show ?thesis using triv
      by (auto simp: RepositoriesNode_refresh_def intro!: exI[of _ "next_id w"] exI[of _ "[]"])
  next
    case (Some old)
    consider (a) "repositories w = []" "old = []" | (b) "repositories w = []" "old \<noteq> []"
      | (c) "repositories w \<noteq> []" by blast
    then show ?thesis
    proof cases
      case a
      then show ?thesis using triv Some
        by (auto simp: RepositoriesNode_refresh_def intro!: exI[of _ "next_id w"] exI[of _ "[]"])
    next
      case b
      then show ?thesis using Some
        by (auto simp: RepositoriesNode_refresh_def new_MessageNode_simp
              intro!: exI[of _ "Suc (next_id w)"] exI[of _ "[]"])
    next
      case c
      let ?res = "refresh_loop (sort_repositories (repositories w)) old [] w"
      from refresh_loop_frame[of "sort_repositories (repositories w)" old "[]" w]
      obtain n seg where f: "case_sum snd snd ?res = w\<lparr>next_id := n, trace := trace w @ seg\<rparr>"
        "next_id w \<le> n" "list_all refresh_effect seg" by blast
      show ?thesis
      proof (cases ?res)
        case (Inl e)
        then show ?thesis using Some c f
          by (auto simp: RepositoriesNode_refresh_def intro!: exI[of _ n] exI[of _ seg])
      next
        case (Inr p)
        obtain cs w1 where p: "p = (cs, w1)" by (cases p)
        let ?d = "map (\<lambda>c. NodeDispose (node_id c)) (filter (\<lambda>c. \<not> includes_child cs c) old)"
        have "case_sum snd snd (RepositoriesNode_refresh r w)
               = w\<lparr>next_id := n, trace := trace w @ (seg @ ?d)\<rparr>"
          using Some c f(1) Inr p
          by (simp add: RepositoriesNode_refresh_def dispose_loop_eq)
        moreover have "list_all refresh_effect (seg @ ?d)"
          using f(3) dispose_loop_effects by simp
        ultimately show ?thesis using f(2) by blast
      qed
    qed
  qed
qed

lemma RepositoriesNode_refresh_id:
  "RepositoriesNode_refresh r w = Inr (r', w') \<Longrightarrow> rn_id r' = rn_id r"
  by (auto simp: RepositoriesNode_refresh_def new_MessageNode_simp
        split: option.splits if_splits sum.splits prod.splits)

lemma refresh_unawaited_frame:
  assumes "refresh_unawaited reason this w = (this', w')"
  shows "\<exists>n seg rt. w' = w\<lparr>next_id := n,
                           trace := trace w @ LogRefresh (case reason of None \<Rightarrow> Command | Some x \<Rightarrow> x) # seg\<rparr>
     \<and> next_id w \<le> n \<and> list_all refresh_effect seg
     \<and> this' = this\<lparr>root := rt\<rparr> \<and> map_option rn_id rt = map_option rn_id (root this)"
proof -
  let ?r = "case reason of None \<Rightarrow> Command | Some x \<Rightarrow> x"
  let ?w1 = "emit (LogRefresh ?r) w"
  show ?thesis
  proof (cases "root this")
    case None
    with assms have "w' = w\<lparr>next_id := next_id w, trace := trace w @ LogRefresh ?r # [FireDidChangeTreeData (onDidChangeTreeData this) None]\<rparr>"
      "this' = this\<lparr>root := None\<rparr>"
      by (auto simp: refresh_unawaited_def GitExplorer_refresh_def Let_def emit_def)
    then show ?thesis using None by (intro exI[of _ "next_id w"] exI[of _ "[FireDidChangeTreeData (onDidChangeTreeData this) None]"] exI[of _ None]) simp
  next
    case (Some r)
    from RepositoriesNode_refresh_frame[of r ?w1]
    obtain n seg where f: "case_sum snd snd (RepositoriesNode_refresh r ?w1) = ?w1\<lparr>next_id := n, trace := trace ?w1 @ seg\<rparr>"
      "next_id ?w1 \<le> n" "list_all refresh_effect seg" by blast
    show ?thesis
    proof (cases "RepositoriesNode_refresh r ?w1")
      case (Inl p)
      obtain e w2 where p: "p = (e, w2)" by (cases p)
      with Inl f(1) Some assms have "w' = w\<lparr>next_id := n, trace := trace w @ LogRefresh ?r # seg\<rparr>"
        "this' = this\<lparr>root := Some r\<rparr>"
        by (auto simp: refresh_unawaited_def GitExplorer_refresh_def Let_def emit_def)
      then show ?thesis using f(2,3) Some
        by (intro exI[of _ n] exI[of _ seg] exI[of _ "Some r"]) (simp add: emit_def)
    next
      case (Inr p)
      obtain r' w2 where p: "p = (r', w2)" by (cases p)
      let ?f = "FireDidChangeTreeData (onDidChangeTreeData this) None"
      from Inr p f(1) Some assms have "w' = w\<lparr>next_id := n, trace := trace w @ LogRefresh ?r # (seg @ [?f])\<rparr>"
        "this' = this\<lparr>root := Some r'\<rparr>"
        by (auto simp: refresh_unawaited_def GitExplorer_refresh_def Let_def emit_def)
      moreover have "rn_id r' = rn_id r" using Inr p by (auto dest: RepositoriesNode_refresh_id)
      ultimately show ?thesis using f(2,3) Some
        by (intro exI[of _ n] exI[of _ "seg @ [?f]"] exI[of _ "Some r'"]) (simp add: emit_def)
    qed
  qed
qed


lemma setAutoRefresh_unfold:
  "setAutoRefresh en ov this w =
    (let w1 = (case autoRefreshDisposable this of None \<Rightarrow> w | Some d \<Rightarrow> dispose d w);
         this1 = this\<lparr>autoRefreshDisposable := None\<rparr>;
         flag = (case ov of None \<Rightarrow> workspaceState_get w True | Some b \<Rightarrow> b);
         w2 = (case ov of
                 None \<Rightarrow> w1
               | Some b \<Rightarrow>
                   if en then emit FireDidChangeAutoRefresh (update_workspaceState b w1) else w1);
         d = next_id w2;
         w3 = (if en \<and> flag
               then w2\<lparr>next_id := Suc d, listeners := listeners w2 @ [d],
                       subscriptions := subscriptions w2 @ [d],
                       trace := trace w2 @ [OnDidChangeRepositories d]\<rparr>
               else w2);
         this3 = (if en \<and> flag then this1\<lparr>autoRefreshDisposable := Some d\<rparr> else this1);
         w4 = emit (SetCommandContext GitExplorerAutoRefresh (CtxBool (en \<and> flag))) w3
     in if en \<and> ov = Some True then refresh_unawaited (Some AutoRefreshChanged) this3 w4
        else (this3, w4))"
proof -
  have this_None: "autoRefreshDisposable this = None \<Longrightarrow> this\<lparr>autoRefreshDisposable := None\<rparr> = this"
    by simp
  show ?thesis
    by (cases "autoRefreshDisposable this"; cases ov; cases en)
       (auto simp: setAutoRefresh_def Let_def js_and_def setCommandContext_def
          onDidChangeRepositories_def alloc_def emit_def workspaceState_get_def
          update_workspaceState_def dispose_def
          split: option.splits)
qed


lemma setAutoRefresh_result:
  assumes "setAutoRefresh en ov this w = (this', w')"
  defines "flag \<equiv> (case ov of None \<Rightarrow> workspaceState_get w True | Some b \<Rightarrow> b)"
  defines "pre \<equiv> (case autoRefreshDisposable this of None \<Rightarrow> [] | Some d \<Rightarrow> [Dispose d])
            @ (case ov of None \<Rightarrow> []
               | Some b \<Rightarrow> if en then [WorkspaceStateUpdate b, FireDidChangeAutoRefresh] else [])"
  shows "\<exists>d seg rt.
      trace w' = trace w @ pre
         @ (if en \<and> flag then [OnDidChangeRepositories d] else [])
         @ [SetCommandContext GitExplorerAutoRefresh (CtxBool (en \<and> flag))]
         @ (if en \<and> ov = Some True then LogRefresh AutoRefreshChanged # seg else [])
    \<and> list_all refresh_effect seg
    \<and> listeners w' =
        (case autoRefreshDisposable this of None \<Rightarrow> listeners w
         | Some d' \<Rightarrow> removeAll d' (listeners w)) @ (if en \<and> flag then [d] else [])
    \<and> autoRefreshDisposable this' = (if en \<and> flag then Some d else None)
    \<and> workspaceState w' = (case ov of None \<Rightarrow> workspaceState w
                             | Some b \<Rightarrow> if en then Some b else workspaceState w)
    \<and> this' = this\<lparr>autoRefreshDisposable := autoRefreshDisposable this', root := rt\<rparr>
    \<and> map_option rn_id rt = map_option rn_id (root this)
    \<and> next_id w \<le> next_id w' \<and> gitExplorer w' = gitExplorer w"
proof -
  define w1 where "w1 = (case autoRefreshDisposable this of None \<Rightarrow> w | Some d \<Rightarrow> dispose d w)"
  define this1 where "this1 = this\<lparr>autoRefreshDisposable := None\<rparr>"
  define w2 where "w2 = (case ov of None \<Rightarrow> w1
               | Some b \<Rightarrow>
                   if en then emit FireDidChangeAutoRefresh (update_workspaceState b w1) else w1)"
  define d where "d = next_id w2"
  define w3 where "w3 = (if en \<and> flag
               then w2\<lparr>next_id := Suc d, listeners := listeners w2 @ [d],
                       subscriptions := subscriptions w2 @ [d],
                       trace := trace w2 @ [OnDidChangeRepositories d]\<rparr>
               else w2)"
  define this3 where "this3 = (if en \<and> flag then this1\<lparr>autoRefreshDisposable := Some d\<rparr> else this1)"
  define w4 where "w4 = emit (SetCommandContext GitExplorerAutoRefresh (CtxBool (en \<and> flag))) w3"
  have u: "setAutoRefresh en ov this w =
     (if en \<and> ov = Some True then refresh_unawaited (Some AutoRefreshChanged) this3 w4
      else (this3, w4))"
    unfolding setAutoRefresh_unfold[of en ov this w] Let_def
    by (simp only: w1_def this1_def w2_def d_def w3_def this3_def w4_def flag_def)
  have t4: "trace w4 = trace w @ pre
         @ (if en \<and> flag then [OnDidChangeRepositories d] else [])
         @ [SetCommandContext GitExplorerAutoRefresh (CtxBool (en \<and> flag))]"
    by (auto simp: w4_def w3_def w2_def w1_def pre_def emit_def dispose_def
          update_workspaceState_def split: option.splits)
  have l4: "listeners w4 = (case autoRefreshDisposable this of None \<Rightarrow> listeners w
         | Some d' \<Rightarrow> removeAll d' (listeners w)) @ (if en \<and> flag then [d] else [])"
    by (auto simp: w4_def w3_def w2_def w1_def emit_def dispose_def
          update_workspaceState_def split: option.splits)
  have a3: "autoRefreshDisposable this3 = (if en \<and> flag then Some d else None)"
    by (simp add: this3_def this1_def)
  have s4: "workspaceState w4 = (case ov of None \<Rightarrow> workspaceState w
                             | Some b \<Rightarrow> if en then Some b else workspaceState w)"
    by (auto simp: w4_def w3_def w2_def w1_def emit_def dispose_def
          update_workspaceState_def split: option.splits)
  have e3: "this3 = this\<lparr>autoRefreshDisposable := autoRefreshDisposable this3, root := root this\<rparr>"
    by (simp add: this3_def this1_def)
  have n4: "next_id w \<le> next_id w4" "gitExplorer w4 = gitExplorer w"
    by (auto simp: w4_def w3_def w2_def w1_def d_def emit_def dispose_def
          update_workspaceState_def split: option.splits)
  show ?thesis
  proof (cases "en \<and> ov = Some True")
    case False
    with u assms(1) have eq: "this' = this3" "w' = w4" by auto
    have c1: "trace w' = trace w @ pre
         @ (if en \<and> flag then [OnDidChangeRepositories d] else [])
         @ [SetCommandContext GitExplorerAutoRefresh (CtxBool (en \<and> flag))]
         @ (if en \<and> ov = Some True then LogRefresh AutoRefreshChanged # [] else [])"
      using False t4 eq by simp
    have c2: "list_all refresh_effect []" by simp
    have c6: "this' = this\<lparr>autoRefreshDisposable := autoRefreshDisposable this', root := root this\<rparr>"
      unfolding eq by (simp add: this3_def this1_def)
    have c7: "map_option rn_id (root this) = map_option rn_id (root this)" by simp
    show ?thesis
      using c1 c2 l4 a3 s4 c6 c7 n4 unfolding eq by blast
  next
    case True
    with u assms(1) have "refresh_unawaited (Some AutoRefreshChanged) this3 w4 = (this', w')" by simp
    from refresh_unawaited_frame[OF this]
    obtain n seg rt where f: "w' = w4\<lparr>next_id := n, trace := trace w4 @ LogRefresh AutoRefreshChanged # seg\<rparr>"
      "next_id w4 \<le> n" "list_all refresh_effect seg" "this' = this3\<lparr>root := rt\<rparr>"
      "map_option rn_id rt = map_option rn_id (root this3)"
      by auto
    have c1: "trace w' = trace w @ pre
         @ (if en \<and> flag then [OnDidChangeRepositories d] else [])
         @ [SetCommandContext GitExplorerAutoRefresh (CtxBool (en \<and> flag))]
         @ (if en \<and> ov = Some True then LogRefresh AutoRefreshChanged # seg else [])"
      using True t4 f(1) by simp
    have c3: "listeners w' = (case autoRefreshDisposable this of None \<Rightarrow> listeners w
         | Some d' \<Rightarrow> removeAll d' (listeners w)) @ (if en \<and> flag then [d] else [])"
      using l4 f(1) by simp
    have c4: "autoRefreshDisposable this' = (if en \<and> flag then Some d else None)"
      using a3 f(4) by simp
    have c5: "workspaceState w' = (case ov of None \<Rightarrow> workspaceState w
                             | Some b \<Rightarrow> if en then Some b else workspaceState w)"
      using s4 f(1) by simp
    have c6: "this' = this\<lparr>autoRefreshDisposable := autoRefreshDisposable this', root := rt\<rparr>"
      unfolding f(4) by (simp add: this3_def this1_def)
    have c7: "map_option rn_id rt = map_option rn_id (root this)"
      using f(5) by (simp add: this3_def this1_def)
    have c8: "next_id w \<le> next_id w'" "gitExplorer w' = gitExplorer w"
      using n4 f(1,2) by simp_all
    show ?thesis
      using c1 f(3) c3 c4 c5 c6 c7 c8 by blast
  qed
qed


lemma count_list_refresh_effect:
  "list_all refresh_effect seg \<Longrightarrow> \<not> refresh_effect e \<Longrightarrow> count_list seg e = 0"
  by (induction seg) auto

text \<open>
  Claim C6, as the code has it. \<open>setAutoRefresh\<close> calls \<open>refresh\<close> with the reason
  \<open>AutoRefreshChanged\<close> once when \<open>enabled\<close> is true and the override is \<open>true\<close>, and not at all
  otherwise: not when the override is \<open>false\<close>, not when it is undefined, not when \<open>enabled\<close>
  is false. The override is persisted, and the notification fired, once when \<open>enabled\<close> is
  true and an override is given, whatever its value, and not at all otherwise.
\<close>

theorem setAutoRefresh_refresh_trigger:
  assumes "setAutoRefresh en ov this w = (this', w')"
  shows "count_list (new_effects w w') (LogRefresh AutoRefreshChanged)
           = (if en \<and> ov = Some True then 1 else 0)
       \<and> (\<forall>b. count_list (new_effects w w') (WorkspaceStateUpdate b)
                = (if en \<and> ov = Some b then 1 else 0))
       \<and> count_list (new_effects w w') FireDidChangeAutoRefresh
           = (if en \<and> ov \<noteq> None then 1 else 0)
       \<and> workspaceState w'
           = (case ov of None \<Rightarrow> workspaceState w
              | Some b \<Rightarrow> if en then Some b else workspaceState w)"
proof -
  from setAutoRefresh_result[OF assms] obtain d seg rt where
    t: "trace w' = trace w
         @ ((case autoRefreshDisposable this of None \<Rightarrow> [] | Some d \<Rightarrow> [Dispose d])
            @ (case ov of None \<Rightarrow> []
               | Some b \<Rightarrow> if en then [WorkspaceStateUpdate b, FireDidChangeAutoRefresh] else [])
            @ (if en \<and> (case ov of None \<Rightarrow> workspaceState_get w True | Some b \<Rightarrow> b)
               then [OnDidChangeRepositories d] else [])
            @ [SetCommandContext GitExplorerAutoRefresh
                 (CtxBool (en \<and> (case ov of None \<Rightarrow> workspaceState_get w True | Some b \<Rightarrow> b)))]
            @ (if en \<and> ov = Some True then LogRefresh AutoRefreshChanged # seg else []))"
    and s: "list_all refresh_effect seg"
    and ws: "workspaceState w' = (case ov of None \<Rightarrow> workspaceState w
                             | Some b \<Rightarrow> if en then Some b else workspaceState w)"
    by auto
  note z = count_list_refresh_effect[OF s]
  show ?thesis
    unfolding new_effects_append[OF t]
    using ws by (auto simp: z split: option.splits)
qed

text \<open>
  Calls that run one after the other, each to its end, where the explorer is the only
  listener of the backend's repository changes: the live listeners are the handle the
  explorer holds, if it holds one. After \<open>setAutoRefresh\<close> this is so again, hence at most one listener is live; one
  is live iff \<open>enabled\<close> is true and the workspace flag (the override when given, otherwise
  the persisted flag, true when never stored) is true; the handle held before the call is
  disposed first, once; and the conjunction of the two flags is what is published, once, to
  the command context.
\<close>

lemma setAutoRefresh_subscription:
  assumes inv: "listeners w = (case autoRefreshDisposable this of None \<Rightarrow> [] | Some d \<Rightarrow> [d])"
      and call: "setAutoRefresh en ov this w = (this', w')"
  shows "listeners w' = (case autoRefreshDisposable this' of None \<Rightarrow> [] | Some d \<Rightarrow> [d])
       \<and> (listeners w' \<noteq> [])
           = (en \<and> (case ov of None \<Rightarrow> workspaceState_get w True | Some b \<Rightarrow> b))
       \<and> length (listeners w') \<le> 1
       \<and> (case autoRefreshDisposable this of
             None \<Rightarrow> True
           | Some d \<Rightarrow> \<exists>rest. new_effects w w' = Dispose d # rest
                          \<and> count_list rest (Dispose d) = 0)
       \<and> count_list (new_effects w w')
            (SetCommandContext GitExplorerAutoRefresh
               (CtxBool (en \<and> (case ov of None \<Rightarrow> workspaceState_get w True | Some b \<Rightarrow> b)))) = 1
       \<and> (\<forall>v. SetCommandContext GitExplorerAutoRefresh v \<in> set (new_effects w w') \<longrightarrow>
              v = CtxBool (en \<and> (case ov of None \<Rightarrow> workspaceState_get w True | Some b \<Rightarrow> b)))"
proof -
  from setAutoRefresh_result[OF call] obtain d seg rt where
    t: "trace w' = trace w
         @ ((case autoRefreshDisposable this of None \<Rightarrow> [] | Some d \<Rightarrow> [Dispose d])
            @ (case ov of None \<Rightarrow> []
               | Some b \<Rightarrow> if en then [WorkspaceStateUpdate b, FireDidChangeAutoRefresh] else [])
            @ (if en \<and> (case ov of None \<Rightarrow> workspaceState_get w True | Some b \<Rightarrow> b)
               then [OnDidChangeRepositories d] else [])
            @ [SetCommandContext GitExplorerAutoRefresh
                 (CtxBool (en \<and> (case ov of None \<Rightarrow> workspaceState_get w True | Some b \<Rightarrow> b)))]
            @ (if en \<and> ov = Some True then LogRefresh AutoRefreshChanged # seg else []))"
    and s: "list_all refresh_effect seg"
    and l: "listeners w' =
        (case autoRefreshDisposable this of None \<Rightarrow> listeners w
         | Some d' \<Rightarrow> removeAll d' (listeners w))
        @ (if en \<and> (case ov of None \<Rightarrow> workspaceState_get w True | Some b \<Rightarrow> b) then [d] else [])"
    and a: "autoRefreshDisposable this' =
        (if en \<and> (case ov of None \<Rightarrow> workspaceState_get w True | Some b \<Rightarrow> b) then Some d else None)"
    by auto
  note z = count_list_refresh_effect[OF s]
  have m: "e \<in> set seg \<Longrightarrow> refresh_effect e" for e
    using s by (simp add: list_all_iff)
  have l': "listeners w' =
      (if en \<and> (case ov of None \<Rightarrow> workspaceState_get w True | Some b \<Rightarrow> b) then [d] else [])"
    using l inv by (auto split: option.splits)
  show ?thesis
    unfolding new_effects_append[OF t]
    using l' a by (auto simp: z split: option.splits dest: m)
qed

section \<open>GitExplorer: a change of the view location\<close>

lemma changed_parent: "changed e (s @ t) \<Longrightarrow> changed e s"
proof (cases e)
  case InitializingChangeEvent
  then show "changed e (s @ t) \<Longrightarrow> changed e s" by simp
next
  case (ChangeEvent ks)
  assume "changed e (s @ t)"
  then obtain k where k: "k \<in> set ks" "prefix (s @ t) k \<or> prefix k (s @ t)"
    using ChangeEvent by (auto simp: list_ex_iff)
  then have "prefix s k \<or> prefix k s"
    by (auto simp: prefix_append dest: append_prefixD)
  with k(1) show "changed e s" using ChangeEvent by (auto simp: list_ex_iff)
qed

lemma dispose_all_eq:
  "dispose_all hs w =
     w\<lparr>listeners := filter (\<lambda>l. l \<notin> set hs) (listeners w),
       treeViews := filter (\<lambda>v. fst v \<notin> set hs) (treeViews w),
       trace := trace w @ map Dispose hs\<rparr>"
proof (induction hs arbitrary: w)
  case Nil
  then show ?case by simp
next
  case (Cons h hs)
  have 1: "filter (\<lambda>l. l \<notin> set hs) (removeAll h xs) = filter (\<lambda>l. l \<noteq> h \<and> l \<notin> set hs) xs" for xs :: "nat list"
    by (induction xs) auto
  have 2: "filter (\<lambda>v. fst v \<notin> set hs) (filter (\<lambda>v. fst v \<noteq> h) xs) = filter (\<lambda>v. fst v \<noteq> h \<and> fst v \<notin> set hs) xs" for xs :: "(nat \<times> string) list"
    by (induction xs) auto
  show ?case
    by (simp add: Cons dispose_def emit_def 1 2)
qed


lemma rebind_tree_result:
  assumes "disposable this = Some hs"
  shows "rebind_tree this w =
    (let n = next_id w;
         t = (case root this of None \<Rightarrow> n + 2 | Some r \<Rightarrow> n + 1);
         view = ''gitlens.gitExplorer:'' @ location (gitExplorer w)
     in (this\<lparr>onDidChangeTreeData := n,
              root := (case root this of None \<Rightarrow> Some \<lparr>rn_id = n + 1, children = None\<rparr>
                       | Some r \<Rightarrow> Some r),
              tree := Some t, disposable := Some [t, t + 1]\<rparr>,
         w\<lparr>listeners := filter (\<lambda>l. l \<notin> set hs) (listeners w),
           treeViews := filter (\<lambda>v. fst v \<notin> set hs) (treeViews w) @ [(t, view)],
           next_id := t + 2,
           trace := trace w @ map Dispose hs @ [CreateTreeView t view]\<rparr>))"
  using assms
  by (cases "root this")
     (simp_all add: rebind_tree_def dispose_all_eq alloc_def setRoot_def new_RepositoriesNode_def
        createTreeView_def emit_def Let_def)

text \<open>
  Claim C5, as the code has it. When a change event affects the location setting of the
  view and the explorer holds a handle, every part of the handle is disposed and the old
  view is gone; a tree view is created under the id of the configured location and becomes
  the explorer's \<open>tree\<close>, and its handle the new \<open>disposable\<close>. The root is kept: \<open>setRoot\<close>
  constructs a \<open>RepositoriesNode\<close> only when there is no root, so an existing root is the
  same instance afterwards.
\<close>

theorem location_change_rebinds_tree:
  assumes loc: "changed e [''gitExplorer'', ''location'']"
      and old: "disposable this = Some hs" "\<forall>h\<in>set hs. h < next_id w"
      and call: "onConfigurationChanged e this w = (this', w')"
  shows "(\<forall>h\<in>set hs. Dispose h \<in> set (new_effects w w') \<and> h \<notin> fst ` set (treeViews w'))
       \<and> (case root this of
             Some r \<Rightarrow> map_option rn_id (root this') = Some (rn_id r)
           | None \<Rightarrow> \<exists>r'. root this' = Some r' \<and> next_id w \<le> rn_id r')
       \<and> (\<exists>t v. tree this' = Some t \<and> disposable this' = Some [t, v] \<and> next_id w \<le> t
              \<and> (t, ''gitlens.gitExplorer:'' @ location (gitExplorer w)) \<in> set (treeViews w')
              \<and> CreateTreeView t (''gitlens.gitExplorer:'' @ location (gitExplorer w))
                   \<in> set (new_effects w w'))"
proof -
  define view where "view = ''gitlens.gitExplorer:'' @ location (gitExplorer w)"
  have ni: "\<not> initializing e" using loc by (cases e) auto
  have ge: "changed e [''gitExplorer'']"
    using changed_parent[of e "[''gitExplorer'']" "[''location'']"] loc by simp
  define w1 where "w1 = setCommandContext GitExplorer
                          (if enabled (gitExplorer w) then CtxString (location (gitExplorer w))
                           else CtxBool False) w"
  obtain this2 w2 where s2: "(if changed e [''gitExplorer'', ''autoRefresh'']
                  then setAutoRefresh (autoRefresh (gitExplorer w1)) None this w1
                  else (this, w1)) = (this2, w2)"
    by fastforce
  have f2: "disposable this2 = disposable this \<and> map_option rn_id (root this2) = map_option rn_id (root this)
     \<and> next_id w \<le> next_id w2 \<and> gitExplorer w2 = gitExplorer w \<and> (\<exists>seg. trace w2 = trace w @ seg)"
  proof (cases "changed e [''gitExplorer'', ''autoRefresh'']")
    case False
    with s2 show ?thesis by (auto simp: w1_def setCommandContext_def emit_def)
  next
    case True
    with s2 have c: "setAutoRefresh (autoRefresh (gitExplorer w1)) None this w1 = (this2, w2)" by simp
    from setAutoRefresh_result[OF c] obtain rt seg where r:
      "this2 = this\<lparr>autoRefreshDisposable := autoRefreshDisposable this2, root := rt\<rparr>"
      "map_option rn_id rt = map_option rn_id (root this)"
      "next_id w1 \<le> next_id w2" "gitExplorer w2 = gitExplorer w1" "trace w2 = trace w1 @ seg"
      by blast
    have "disposable this2 = disposable this" "root this2 = rt"
      by (subst r(1), simp)+
    with r show ?thesis
      by (auto simp: w1_def setCommandContext_def emit_def)
  qed
  then obtain seg2 where t2: "trace w2 = trace w @ seg2" by blast
  obtain this7 w7 where s7: "rebind_tree this2 w2 = (this7, w7)" by fastforce
  have call': "refresh_unawaited (Some ConfigurationChanged) this7 w7 = (this', w')"
  proof -
    have "root this7 \<noteq> None"
      using s7 f2 old(1) by (auto simp: rebind_tree_result Let_def split: option.splits)
    then show ?thesis
      using call ni ge loc s2 s7
      by (simp add: onConfigurationChanged_def Let_def w1_def[symmetric])
  qed
  from refresh_unawaited_frame[OF call'] obtain n seg rt where f:
    "w' = w7\<lparr>next_id := n, trace := trace w7 @ LogRefresh ConfigurationChanged # seg\<rparr>"
    "this' = this7\<lparr>root := rt\<rparr>" "map_option rn_id rt = map_option rn_id (root this7)"
    by auto
  define t where "t = (case root this2 of None \<Rightarrow> next_id w2 + 2 | Some r \<Rightarrow> next_id w2 + 1)"
  have e7: "this7 = this2\<lparr>onDidChangeTreeData := next_id w2,
              root := (case root this2 of None \<Rightarrow> Some \<lparr>rn_id = next_id w2 + 1, children = None\<rparr>
                       | Some r \<Rightarrow> Some r),
              tree := Some t, disposable := Some [t, t + 1]\<rparr>"
    and e7': "w7 = w2\<lparr>listeners := filter (\<lambda>l. l \<notin> set hs) (listeners w2),
           treeViews := filter (\<lambda>v. fst v \<notin> set hs) (treeViews w2) @ [(t, view)],
           next_id := t + 2,
           trace := trace w2 @ map Dispose hs @ [CreateTreeView t view]\<rparr>"
    using s7 f2 old(1) rebind_tree_result[of this2 hs w2]
    by (simp_all add: Let_def t_def view_def)
  have tge: "next_id w \<le> t" using f2 by (auto simp: t_def split: option.splits)
  have tr: "trace w' = trace w @ (seg2 @ map Dispose hs @ [CreateTreeView t view]
              @ LogRefresh ConfigurationChanged # seg)"
    using f(1) e7' t2 by simp
  have tv: "treeViews w' = filter (\<lambda>v. fst v \<notin> set hs) (treeViews w2) @ [(t, view)]"
    using f(1) e7' by simp
  have A: "\<forall>h\<in>set hs. Dispose h \<in> set (new_effects w w') \<and> h \<notin> fst ` set (treeViews w')"
    unfolding new_effects_append[OF tr] tv using old(2) tge by auto
  have B: "case root this of
             Some r \<Rightarrow> map_option rn_id (root this') = Some (rn_id r)
           | None \<Rightarrow> \<exists>r'. root this' = Some r' \<and> next_id w \<le> rn_id r'"
  proof (cases "root this")
    case None
    with f2 have "root this2 = None" by simp
    then have "root this7 = Some \<lparr>rn_id = next_id w2 + 1, children = None\<rparr>"
      by (subst e7) simp
    with f(2,3) obtain r' where "root this' = Some r'" "rn_id r' = next_id w2 + 1"
      by (cases rt) auto
    with None f2 show ?thesis by auto
  next
    case (Some r)
    with f2 obtain r2 where r2: "root this2 = Some r2" "rn_id r2 = rn_id r" by auto
    then have "root this7 = Some r2" by (subst e7) simp
    with f(2,3) r2 have "map_option rn_id (root this') = Some (rn_id r)" by simp
    with Some show ?thesis by simp
  qed
  have C: "\<exists>t v. tree this' = Some t \<and> disposable this' = Some [t, v] \<and> next_id w \<le> t
              \<and> (t, view) \<in> set (treeViews w')
              \<and> CreateTreeView t view \<in> set (new_effects w w')"
  proof -
    have "tree this' = Some t" "disposable this' = Some [t, t + 1]"
      unfolding f(2) by (subst e7, simp)+
    then show ?thesis
      unfolding new_effects_append[OF tr] tv using tge by auto
  qed
  show ?thesis using A B C unfolding view_def by blast
qed

section \<open>GitExplorer: concrete runs\<close>

lemma location_changed_run:
  "onConfigurationChanged location_changed bound_explorer world_bound =
     (\<lparr>disposable = Some [5, 6], root = Some \<lparr>rn_id = 0, children = None\<rparr>, tree = Some 5,
       autoRefreshDisposable = None, onDidChangeTreeData = 4\<rparr>,
      world_bound\<lparr>treeViews := [(5, ''gitlens.gitExplorer:explorer'')], next_id := 7,
                  trace := [SetCommandContext GitExplorer (CtxString ''explorer''), Dispose 1,
                            Dispose 2, CreateTreeView 5 ''gitlens.gitExplorer:explorer'',
                            LogRefresh ConfigurationChanged, FireDidChangeTreeData 4 None]\<rparr>)"
  by (simp add: onConfigurationChanged_def location_changed_def bound_explorer_def
        world_bound_def example_world_def Let_def setCommandContext_def emit_def
        rebind_tree_result refresh_unawaited_def GitExplorer_refresh_def
        RepositoriesNode_refresh_def)


theorem location_change_rebinds_tree_witness:
  "tree (fst (onConfigurationChanged location_changed bound_explorer world_bound)) = Some 5
   \<and> disposable (fst (onConfigurationChanged location_changed bound_explorer world_bound))
       = Some [5, 6]
   \<and> treeViews (snd (onConfigurationChanged location_changed bound_explorer world_bound))
       = [(5, ''gitlens.gitExplorer:explorer'')]"
proof -
  have h1: "changed location_changed [''gitExplorer'', ''location'']"
    by (simp add: location_changed_def)
  have h2: "disposable bound_explorer = Some [1, 2]" by (simp add: bound_explorer_def)
  have h3: "\<forall>h\<in>set [1, 2]. h < next_id world_bound" by (simp add: world_bound_def)
  from location_change_rebinds_tree[OF h1 h2 h3 location_changed_run]
  show ?thesis by (simp add: location_changed_run)
qed

text \<open>
  After a change of the location the root is the instance it was before, not one
  constructed during the call (the next free identity was 4).
\<close>

theorem location_change_keeps_root_counterexample:
  "root (fst (onConfigurationChanged location_changed bound_explorer world_bound))
     = root bound_explorer
   \<and> map_option rn_id (root (fst (onConfigurationChanged location_changed bound_explorer
                                      world_bound))) = Some 0
   \<and> next_id world_bound = 4"
  by (simp add: location_changed_run) (simp add: bound_explorer_def world_bound_def)

lemma setAutoRefresh_on_run:
  "setAutoRefresh True (Some True) example_explorer example_world =
     (example_explorer\<lparr>autoRefreshDisposable := Some 0\<rparr>,
      example_world\<lparr>workspaceState := Some True, subscriptions := [0], listeners := [0],
                    next_id := 1,
                    trace := [WorkspaceStateUpdate True, FireDidChangeAutoRefresh,
                              OnDidChangeRepositories 0,
                              SetCommandContext GitExplorerAutoRefresh (CtxBool True),
                              LogRefresh AutoRefreshChanged, FireDidChangeTreeData 0 None]\<rparr>)"
  by (simp add: setAutoRefresh_unfold Let_def example_explorer_def example_world_def
        update_workspaceState_def emit_def refresh_unawaited_def GitExplorer_refresh_def)

lemma setAutoRefresh_off_run:
  "setAutoRefresh True (Some False) example_explorer example_world =
     (example_explorer,
      example_world\<lparr>workspaceState := Some False,
                    trace := [WorkspaceStateUpdate False, FireDidChangeAutoRefresh,
                              SetCommandContext GitExplorerAutoRefresh (CtxBool False)]\<rparr>)"
  by (simp add: setAutoRefresh_unfold Let_def example_explorer_def example_world_def
        update_workspaceState_def emit_def)

lemma setAutoRefresh_disabled_run:
  "setAutoRefresh False (Some True) example_explorer example_world =
     (example_explorer,
      example_world\<lparr>trace := [SetCommandContext GitExplorerAutoRefresh (CtxBool False)]\<rparr>)"
  by (simp add: setAutoRefresh_unfold Let_def example_explorer_def example_world_def emit_def)

lemma setAutoRefresh_default_run:
  "setAutoRefresh True None example_explorer example_world =
     (example_explorer\<lparr>autoRefreshDisposable := Some 0\<rparr>,
      example_world\<lparr>subscriptions := [0], listeners := [0], next_id := 1,
                    trace := [OnDidChangeRepositories 0,
                              SetCommandContext GitExplorerAutoRefresh (CtxBool True)]\<rparr>)"
  by (simp add: setAutoRefresh_unfold Let_def example_explorer_def example_world_def emit_def
        workspaceState_get_def)

theorem setAutoRefresh_refresh_trigger_witness:
  "count_list (new_effects example_world
                 (snd (setAutoRefresh True (Some True) example_explorer example_world)))
     (LogRefresh AutoRefreshChanged) = 1
   \<and> count_list (new_effects example_world
                   (snd (setAutoRefresh True (Some False) example_explorer example_world)))
       (WorkspaceStateUpdate False) = 1
   \<and> count_list (new_effects example_world
                   (snd (setAutoRefresh True None example_explorer example_world)))
       (LogRefresh AutoRefreshChanged) = 0"
  using setAutoRefresh_refresh_trigger[OF setAutoRefresh_on_run]
    setAutoRefresh_refresh_trigger[OF setAutoRefresh_off_run]
    setAutoRefresh_refresh_trigger[OF setAutoRefresh_default_run]
  by (simp add: setAutoRefresh_on_run setAutoRefresh_off_run setAutoRefresh_default_run)

text \<open>
  With the override \<open>false\<close> no refresh is made, and with \<open>enabled\<close> false an override is
  neither persisted nor notified.
\<close>

theorem setAutoRefresh_override_false_counterexample:
  "LogRefresh AutoRefreshChanged
     \<notin> set (trace (snd (setAutoRefresh True (Some False) example_explorer example_world)))
   \<and> trace (snd (setAutoRefresh False (Some True) example_explorer example_world))
       = [SetCommandContext GitExplorerAutoRefresh (CtxBool False)]
   \<and> workspaceState (snd (setAutoRefresh False (Some True) example_explorer example_world))
       = None"
  by (simp add: setAutoRefresh_off_run setAutoRefresh_disabled_run) (simp add: example_world_def)

lemma setAutoRefresh_subscription_run:
  "listeners (snd (setAutoRefresh True None example_explorer example_world)) = [0]
   \<and> autoRefreshDisposable (fst (setAutoRefresh True None example_explorer example_world))
       = Some 0
   \<and> listeners (snd (setAutoRefresh False None (example_explorer\<lparr>autoRefreshDisposable := Some 0\<rparr>)
        (example_world\<lparr>subscriptions := [0], listeners := [0], next_id := 1\<rparr>))) = []"
proof -
  have i1: "listeners example_world =
      (case autoRefreshDisposable example_explorer of None \<Rightarrow> [] | Some d \<Rightarrow> [d])"
    by (simp add: example_world_def example_explorer_def)
  let ?ex = "example_explorer\<lparr>autoRefreshDisposable := Some 0\<rparr>"
  let ?w = "example_world\<lparr>subscriptions := [0], listeners := [0], next_id := 1\<rparr>"
  have i2: "listeners ?w = (case autoRefreshDisposable ?ex of None \<Rightarrow> [] | Some d \<Rightarrow> [d])"
    by simp
  have c2: "setAutoRefresh False None ?ex ?w =
      (fst (setAutoRefresh False None ?ex ?w), snd (setAutoRefresh False None ?ex ?w))"
    by simp
  have a: "listeners (snd (setAutoRefresh False None ?ex ?w)) = []"
    using setAutoRefresh_subscription[OF i2 c2] by auto
  have b: "listeners (snd (setAutoRefresh True None example_explorer example_world)) = [0]
     \<and> autoRefreshDisposable (fst (setAutoRefresh True None example_explorer example_world))
         = Some 0"
    using setAutoRefresh_subscription[OF i1 setAutoRefresh_default_run]
    by (simp add: setAutoRefresh_default_run)
  from a b show ?thesis by blast
qed

section \<open>GitExplorer: two calls of setAutoRefresh that overlap\<close>

text \<open>The two parts, run one after the other with nothing in between, are the call.\<close>

lemma setAutoRefresh_at_await:
  "setAutoRefresh True (Some b) this w =
     (case setAutoRefresh_until_await b this w of
        (this1, w1) \<Rightarrow> setAutoRefresh_after_await b this1 w1)"
  by (cases "autoRefreshDisposable this"; cases b)
     (simp_all add: setAutoRefresh_def setAutoRefresh_until_await_def
        setAutoRefresh_after_await_def Let_def split: prod.splits)

text \<open>
  Claim C9 at a concrete input. The explorer holds no handle and nothing listens to the
  backend. \<open>setAutoRefresh(true, true)\<close> is called twice, the second time while the first call
  is suspended at its await. Both calls find no handle to dispose, and each subscribes when
  it resumes: two listeners are live, and the explorer holds the handle of the second only,
  so the first can no longer be disposed.
\<close>

theorem overlapping_calls_two_listeners:
  "overlapping_setAutoRefresh True True example_explorer example_world =
     (example_explorer\<lparr>autoRefreshDisposable := Some 1\<rparr>,
      example_world\<lparr>workspaceState := Some True, subscriptions := [0, 1], listeners := [0, 1],
                    next_id := 2,
                    trace := [WorkspaceStateUpdate True, WorkspaceStateUpdate True,
                              FireDidChangeAutoRefresh, OnDidChangeRepositories 0,
                              SetCommandContext GitExplorerAutoRefresh (CtxBool True),
                              LogRefresh AutoRefreshChanged, FireDidChangeTreeData 0 None,
                              FireDidChangeAutoRefresh, OnDidChangeRepositories 1,
                              SetCommandContext GitExplorerAutoRefresh (CtxBool True),
                              LogRefresh AutoRefreshChanged, FireDidChangeTreeData 0 None]\<rparr>)"
  by (simp add: overlapping_setAutoRefresh_def setAutoRefresh_until_await_def
        setAutoRefresh_after_await_def example_explorer_def example_world_def
        update_workspaceState_def emit_def onDidChangeRepositories_def alloc_def
        setCommandContext_def js_and_def refresh_unawaited_def GitExplorer_refresh_def Let_def)

section \<open>LineHoverController: the range while debugging, and uncommitted lines\<close>

lemmas hover_defs = provideDetailsHover_def provideChangesHover_def hover_world_def
  hover_document_def debugging_controller_def onDebugSessionStarted_def debugging_def
  wholeLine_def hover_range_of_def validateRange_def validatePosition_def new_Range_def
  MAX_SAFE_INTEGER_def upgrade_logCommit_def uncommitted_def blame_commit_def Let_def

lemma details_debugging_run:
  "provideDetailsHover debugging_controller hover_document \<lparr>line = 0, character = 5\<rparr> hover_world =
     (Some \<lparr>contents = DetailsMessage uncommitted None [] None 0,
            hover_range = \<lparr>range_start = \<lparr>line = 0, character = 5\<rparr>,
                           range_end = \<lparr>line = 0, character = 5\<rparr>\<rparr>\<rparr>,
      hover_world\<lparr>git_calls := [GetRemotes ''/a'']\<rparr>)"
  by (simp add: hover_defs)

lemma changes_debugging_run:
  "provideChangesHover debugging_controller hover_document \<lparr>line = 0, character = 5\<rparr> hover_world =
     (Some \<lparr>contents = ChangesMessage ''diff'',
            hover_range = \<lparr>range_start = \<lparr>line = 0, character = 5\<rparr>,
                           range_end = \<lparr>line = 0, character = 5\<rparr>\<rparr>\<rparr>,
      hover_world)"
  by (simp add: hover_defs)

lemma details_run:
  "provideDetailsHover \<lparr>debugSessionEndDisposable = None\<rparr> hover_document
     \<lparr>line = 0, character = 2\<rparr> hover_world =
     (Some \<lparr>contents = DetailsMessage uncommitted None [] None 0,
            hover_range = \<lparr>range_start = \<lparr>line = 0, character = 0\<rparr>,
                           range_end = \<lparr>line = 0, character = 5\<rparr>\<rparr>\<rparr>,
      hover_world\<lparr>git_calls := [GetRemotes ''/a'']\<rparr>)"
  by (simp add: hover_defs)

text \<open>
  Claim C2, as the code has it. While a debug session is active \<open>wholeLine\<close> is false
  whatever \<open>hovers.currentLine.over\<close> says, and what the two providers return does not
  depend on that setting. A hover is returned only when the line annotations are not
  suspended and the position is where the range starts; its range is the empty range at the
  end of the line (the start \<open>Number.MAX_SAFE_INTEGER\<close> moved into the line), so it starts
  at character 0 only on an empty line.
\<close>

theorem hover_range_while_debugging:
  assumes "debugging this"
  shows "\<not> wholeLine this env
     \<and> (\<forall>h env'. provideDetailsHover this d p env = (Some h, env')
                  \<or> provideChangesHover this d p env = (Some h, env') \<longrightarrow>
          \<not> lineAnnotations_suspended env
        \<and> hover_range h
            = validateRange d (new_Range (line p) MAX_SAFE_INTEGER (line p) MAX_SAFE_INTEGER)
        \<and> range_start (hover_range h) = range_end (hover_range h)
        \<and> character (range_start (hover_range h)) = character p
        \<and> (line p < length (doc_lines d) \<longrightarrow>
             character (range_start (hover_range h))
               = min MAX_SAFE_INTEGER (length (doc_lines d ! line p))))
     \<and> fst (provideDetailsHover this d p (env\<lparr>hovers_currentLine_over := over\<rparr>))
         = fst (provideDetailsHover this d p env)
     \<and> fst (provideChangesHover this d p (env\<lparr>hovers_currentLine_over := over\<rparr>))
         = fst (provideChangesHover this d p env)"
proof -
  have w: "\<not> wholeLine this env'" for env'
    using assms by (simp add: wholeLine_def)
  have r: "hover_range_of this d p env'
      = validateRange d (new_Range (line p) MAX_SAFE_INTEGER (line p) MAX_SAFE_INTEGER)" for env'
    by (simp add: hover_range_of_def w)
  have v: "range_start (validateRange d (new_Range (line p) MAX_SAFE_INTEGER (line p) MAX_SAFE_INTEGER))
      = range_end (validateRange d (new_Range (line p) MAX_SAFE_INTEGER (line p) MAX_SAFE_INTEGER))"
    by (simp add: validateRange_def new_Range_def)
  have c: "line p < length (doc_lines d) \<Longrightarrow>
     character (range_start (validateRange d (new_Range (line p) MAX_SAFE_INTEGER (line p) MAX_SAFE_INTEGER)))
       = min MAX_SAFE_INTEGER (length (doc_lines d ! line p))"
    by (auto simp: validateRange_def new_Range_def validatePosition_def)
  have A: "\<not> lineAnnotations_suspended env
        \<and> hover_range h
            = validateRange d (new_Range (line p) MAX_SAFE_INTEGER (line p) MAX_SAFE_INTEGER)
        \<and> character (range_start (hover_range h)) = character p"
    if "provideDetailsHover this d p env = (Some h, env')" for h env'
    using that
    by (auto simp: provideDetailsHover_def Let_def w r split: if_splits option.splits prod.splits)
  have B: "\<not> lineAnnotations_suspended env
        \<and> hover_range h
            = validateRange d (new_Range (line p) MAX_SAFE_INTEGER (line p) MAX_SAFE_INTEGER)
        \<and> character (range_start (hover_range h)) = character p"
    if "provideChangesHover this d p env = (Some h, env')" for h env'
    using that
    by (auto simp: provideChangesHover_def Let_def w r split: if_splits option.splits prod.splits)
  have C: "fst (provideDetailsHover this d p (env\<lparr>hovers_currentLine_over := over\<rparr>))
         = fst (provideDetailsHover this d p env)"
    by (auto simp: provideDetailsHover_def Let_def w r upgrade_logCommit_def
          split: option.splits prod.splits)
  have D: "fst (provideChangesHover this d p (env\<lparr>hovers_currentLine_over := over\<rparr>))
         = fst (provideChangesHover this d p env)"
    by (auto simp: provideChangesHover_def Let_def w r split: option.splits prod.splits)
  show ?thesis
    using w A B C D v c by metis
qed

theorem hover_range_while_debugging_witness:
  "debugging debugging_controller
   \<and> hovers_currentLine_over hover_world = ''line''
   \<and> \<not> wholeLine debugging_controller hover_world
   \<and> (\<exists>h env'. provideDetailsHover debugging_controller hover_document
                     \<lparr>line = 0, character = 5\<rparr> hover_world = (Some h, env')
          \<and> character (range_start (hover_range h)) = 5
          \<and> range_start (hover_range h) = range_end (hover_range h))
   \<and> fst (provideDetailsHover debugging_controller hover_document \<lparr>line = 0, character = 5\<rparr>
            (hover_world\<lparr>hovers_currentLine_over := ''annotation''\<rparr>))
       = fst (provideDetailsHover debugging_controller hover_document
                \<lparr>line = 0, character = 5\<rparr> hover_world)"
proof -
  have h: "debugging debugging_controller"
    by (simp add: debugging_controller_def onDebugSessionStarted_def debugging_def)
  note t = hover_range_while_debugging[OF h, of hover_world hover_document
      "\<lparr>line = 0, character = 5\<rparr>" "''annotation''"]
  have o: "hovers_currentLine_over hover_world = ''line''" by (simp add: hover_world_def)
  have w: "\<not> wholeLine debugging_controller hover_world" using t by (rule conjunct1)
  have i: "fst (provideDetailsHover debugging_controller hover_document \<lparr>line = 0, character = 5\<rparr>
            (hover_world\<lparr>hovers_currentLine_over := ''annotation''\<rparr>))
       = fst (provideDetailsHover debugging_controller hover_document
                \<lparr>line = 0, character = 5\<rparr> hover_world)"
    using t by (elim conjE)
  have r: "\<exists>h env'. provideDetailsHover debugging_controller hover_document
                     \<lparr>line = 0, character = 5\<rparr> hover_world = (Some h, env')
          \<and> character (range_start (hover_range h)) = 5
          \<and> range_start (hover_range h) = range_end (hover_range h)"
    unfolding details_debugging_run by simp
  from h o w r i show ?thesis by (intro conjI)
qed

text \<open>
  A debug session is active and the setting asks for the whole line; on the line
  \<open>hello\<close> both hovers are returned at character 5 with a range that starts at character 5,
  and no details hover is returned at character 2.
\<close>

theorem hover_range_debugging_counterexample:
  "debugging debugging_controller
   \<and> hovers_currentLine_over hover_world = ''line''
   \<and> map_option hover_range
        (fst (provideDetailsHover debugging_controller hover_document
                \<lparr>line = 0, character = 5\<rparr> hover_world))
       = Some \<lparr>range_start = \<lparr>line = 0, character = 5\<rparr>,
               range_end = \<lparr>line = 0, character = 5\<rparr>\<rparr>
   \<and> map_option hover_range
        (fst (provideChangesHover debugging_controller hover_document
                \<lparr>line = 0, character = 5\<rparr> hover_world))
       = Some \<lparr>range_start = \<lparr>line = 0, character = 5\<rparr>,
               range_end = \<lparr>line = 0, character = 5\<rparr>\<rparr>
   \<and> fst (provideDetailsHover debugging_controller hover_document
            \<lparr>line = 0, character = 2\<rparr> hover_world) = None"
  by (simp add: details_debugging_run changes_debugging_run)
     (simp add: hover_defs)

text \<open>
  Claim C10. The line's state holds a blame commit that is uncommitted and no log commit.
  Then \<open>provideDetailsHover\<close> makes no call of \<open>getLogCommitForFile\<close> (the only call it can
  make on the git backend is \<open>getRemotes\<close>), the line tracker's states are what they were,
  so the \<open>logCommit\<close> of the line is still undefined, and a hover that is returned has the
  message built from the blame commit.
\<close>

theorem uncommitted_line_no_log_fetch:
  assumes "getState env (line p) = Some ls" "commit ls = Some c" "isUncommitted c"
      and "logCommit ls = None"
      and "provideDetailsHover this d p env = (res, env')"
  shows "(git_calls env' = git_calls env \<or> git_calls env' = git_calls env @ [GetRemotes (repoPath c)])
       \<and> getState env' = getState env
       \<and> (case res of
             None \<Rightarrow> True
           | Some h \<Rightarrow> contents h = DetailsMessage c (defaultDateFormat env)
                          (getRemotes env (repoPath c)) (getAnnotationType env) (line p))"
  using assms
  by (auto simp: provideDetailsHover_def Let_def upgrade_logCommit_def
        split: if_splits option.splits prod.splits)

theorem uncommitted_line_no_log_fetch_witness:
  "git_calls (snd (provideDetailsHover \<lparr>debugSessionEndDisposable = None\<rparr> hover_document
                     \<lparr>line = 0, character = 2\<rparr> hover_world)) = [GetRemotes ''/a'']
   \<and> getState (snd (provideDetailsHover \<lparr>debugSessionEndDisposable = None\<rparr> hover_document
                       \<lparr>line = 0, character = 2\<rparr> hover_world)) 0
       = Some \<lparr>commit = Some uncommitted, logCommit = None\<rparr>
   \<and> map_option contents
        (fst (provideDetailsHover \<lparr>debugSessionEndDisposable = None\<rparr> hover_document
                \<lparr>line = 0, character = 2\<rparr> hover_world))
       = Some (DetailsMessage uncommitted None [] None 0)"
proof -
  have h1: "getState hover_world (line \<lparr>line = 0, character = 2\<rparr>)
              = Some \<lparr>commit = Some uncommitted, logCommit = None\<rparr>"
    by (simp add: hover_world_def)
  have h2: "commit \<lparr>commit = Some uncommitted, logCommit = None\<rparr> = Some uncommitted" by simp
  have h3: "isUncommitted uncommitted" by (simp add: uncommitted_def)
  have h4: "logCommit \<lparr>commit = Some uncommitted, logCommit = None\<rparr> = None" by simp
  from uncommitted_line_no_log_fetch[OF h1 h2 h3 h4 details_run]
  show ?thesis by (simp add: details_run) (simp add: hover_world_def)
qed

text \<open>
  For comparison, a line whose blame commit is committed: the log commit is fetched, takes
  over the previous revision of the blame commit, is cached in the line's state and is what
  the message is built from.
\<close>

lemma committed_line_fetches_log:
  "provideDetailsHover \<lparr>debugSessionEndDisposable = None\<rparr> hover_document
     \<lparr>line = 0, character = 2\<rparr>
     (hover_world\<lparr>getState := [0 \<mapsto> \<lparr>commit = Some blame_commit, logCommit = None\<rparr>]\<rparr>) =
     (Some \<lparr>contents = DetailsMessage (blame_commit\<lparr>message := ''full message''\<rparr>) None [] None 0,
            hover_range = \<lparr>range_start = \<lparr>line = 0, character = 0\<rparr>,
                           range_end = \<lparr>line = 0, character = 5\<rparr>\<rparr>\<rparr>,
      hover_world\<lparr>getState := [0 \<mapsto> \<lparr>commit = Some blame_commit,
                                      logCommit = Some (blame_commit\<lparr>message := ''full message''\<rparr>)\<rparr>],
                  git_calls := [GetLogCommitForFile ''/a'' ''/a/f.ts'' ''abc123'',
                                GetRemotes ''/a'']\<rparr>)"
  by (simp add: hover_defs)

end
